theory Spec2Isabelle
  imports Main "HOL-Library.Word" "HOL-Library.Monad_Syntax"
begin

section \<open>The metadata cache of sys/meta.c\<close>

text \<open>
  A shallow embedding of \<^verbatim>\<open>src/sys/meta.c\<close>. The C code works on a heap of
  \<^verbatim>\<open>FSP_META_CACHE_ITEM\<close> and \<^verbatim>\<open>FSP_META_CACHE_ITEM_BUFFER\<close> objects linked by
  pointers; the model keeps an explicit store for each of the two object types and
  threads the whole machine state through every function. A function returns
  \<open>None\<close> where the C code has no defined behaviour (a null or dangling pointer is
  dereferenced, a block is freed twice, a division by zero) or does not return.

  Conventions.
  \<^item> A pointer is a natural number, \<open>0\<close> is the null pointer.
  \<^item> Integer widths are those of the 64-bit build: \<^verbatim>\<open>UINT64\<close> is \<open>64 word\<close>,
    \<^verbatim>\<open>ULONG\<close> and \<^verbatim>\<open>LONG\<close> are \<open>32 word\<close>, \<^verbatim>\<open>size_t\<close> is \<open>64 word\<close>.
  \<^item> The \<^verbatim>\<open>LIST_ENTRY\<close> macros of the kernel headers (\<^verbatim>\<open>InitializeListHead\<close>,
    \<^verbatim>\<open>InsertTailList\<close>, \<^verbatim>\<open>RemoveEntryList\<close>) are modelled on the sequence of item
    addresses threaded on the list, head first.
  \<^item> The allocator and the tick source are the environment: the state holds the
    answers the allocator will give to the coming calls (\<open>Pool\<close>) and the current
    interrupt time.
  \<^item> The spin lock is a flag. In \<open>exec\<close> and \<open>reachable\<close> the calls run one after the
    other; in \<open>cexec\<close> and \<open>interleaved\<close> the calls of different threads overlap, cut
    into the sections in which a thread holds the lock or works on what only it can
    reach.
  \<^item> \<^verbatim>\<open>MetaCacheDelete\<close> (meta.c:63-67) ends the life of the cache object itself and
    is not part of the model; its first half is \<open>MetaCacheInvalidateAll\<close>.
\<close>

type_synonym ptr = nat
type_synonym UINT64 = "64 word"
type_synonym ULONG = "32 word"
type_synonym LONG = "32 word"
type_synonym UINT8 = "8 word"

subsection \<open>Data\<close>

text \<open>\<^verbatim>\<open>FSP_META_CACHE_ITEM\<close> (meta.c:9-17). The \<^verbatim>\<open>ListEntry\<close> field is the item's
  membership in \<open>ItemList\<close> below.\<close>

record FSP_META_CACHE_ITEM =
  DictNext :: ptr
  ItemBuffer :: ptr
  ItemIndex :: UINT64
  ExpirationTime :: UINT64
  RefCount :: LONG

text \<open>\<^verbatim>\<open>FSP_META_CACHE_ITEM_BUFFER\<close> (meta.c:19-24): the owner, the size and the
  payload bytes of the flexible array member.\<close>

record FSP_META_CACHE_ITEM_BUFFER =
  Item :: ptr
  Size :: ULONG
  Buffer :: "UINT8 list"

text \<open>\<^verbatim>\<open>FSP_META_CACHE\<close> is declared in sys/driver.h; its fields and their types are
  taken from their uses in meta.c. The field \<^verbatim>\<open>MetaCache->ItemIndex\<close> is called
  \<open>NextItemIndex\<close> here, because the item's field has the same name.\<close>

record FSP_META_CACHE =
  SpinLock :: bool
  ItemList :: "ptr list"
  MetaCapacity :: ULONG
  ItemSizeMax :: ULONG
  MetaTimeout :: UINT64
  ItemBucketCount :: ULONG
  ItemCount :: ULONG
  NextItemIndex :: UINT64
  ItemBuckets :: "ptr list"

record state =
  MetaCache :: FSP_META_CACHE
  ItemHeap :: "ptr \<rightharpoonup> FSP_META_CACHE_ITEM"
  BufferHeap :: "ptr \<rightharpoonup> FSP_META_CACHE_ITEM_BUFFER"
  Pool :: "ptr list"
  InterruptTime :: UINT64

text \<open>\<^verbatim>\<open>sizeof(FSP_META_CACHE_ITEM_BUFFER)\<close>: a pointer, a \<^verbatim>\<open>ULONG\<close>, and padding up to
  \<^verbatim>\<open>MEMORY_ALLOCATION_ALIGNMENT\<close> (16 on the 64-bit build).\<close>

definition sizeof_ItemBuffer :: nat where
  "sizeof_ItemBuffer = 16"

subsection \<open>The environment: allocator, lock, clock\<close>

definition zero_item :: FSP_META_CACHE_ITEM where
  "zero_item = \<lparr>DictNext = 0, ItemBuffer = 0, ItemIndex = 0, ExpirationTime = 0, RefCount = 0\<rparr>"

definition zero_buffer :: FSP_META_CACHE_ITEM_BUFFER where
  "zero_buffer = \<lparr>Item = 0, Size = 0, Buffer = []\<rparr>"

text \<open>\<^verbatim>\<open>FspAllocNonPaged(sizeof *Item)\<close>: the allocator's next answer. An empty pool
  and the answer \<open>0\<close> are failures. An answer that is the address of a live block is
  not an allocator: no behaviour. The contents of the new block are not read before
  \<^verbatim>\<open>RtlZeroMemory\<close> overwrites them.\<close>

definition FspAllocNonPaged_Item :: "state \<Rightarrow> (ptr \<times> state) option" where
  "FspAllocNonPaged_Item s =
     (case Pool s of
        [] \<Rightarrow> Some (0, s)
      | p # ps \<Rightarrow>
          if p = 0 then Some (0, s\<lparr>Pool := ps\<rparr>)
          else if ItemHeap s p \<noteq> None then None
          else Some (p, s\<lparr>ItemHeap := (ItemHeap s)(p \<mapsto> zero_item), Pool := ps\<rparr>))"

text \<open>\<^verbatim>\<open>FspAlloc(sizeof *ItemBuffer + Size)\<close>, the same for a buffer.\<close>

definition FspAlloc_Buffer :: "state \<Rightarrow> (ptr \<times> state) option" where
  "FspAlloc_Buffer s =
     (case Pool s of
        [] \<Rightarrow> Some (0, s)
      | p # ps \<Rightarrow>
          if p = 0 then Some (0, s\<lparr>Pool := ps\<rparr>)
          else if BufferHeap s p \<noteq> None then None
          else Some (p, s\<lparr>BufferHeap := (BufferHeap s)(p \<mapsto> zero_buffer), Pool := ps\<rparr>))"

text \<open>\<^verbatim>\<open>FspFree\<close> of an item and of a buffer. Freeing what is not allocated has no
  defined behaviour.\<close>

definition FspFree_Item :: "ptr \<Rightarrow> state \<Rightarrow> state option" where
  "FspFree_Item p s =
     (if ItemHeap s p = None then None else Some (s\<lparr>ItemHeap := (ItemHeap s)(p := None)\<rparr>))"

definition FspFree_Buffer :: "ptr \<Rightarrow> state \<Rightarrow> state option" where
  "FspFree_Buffer p s =
     (if BufferHeap s p = None then None else Some (s\<lparr>BufferHeap := (BufferHeap s)(p := None)\<rparr>))"

text \<open>Acquiring a spin lock that is held spins for ever.\<close>

definition KeAcquireSpinLock :: "state \<Rightarrow> state option" where
  "KeAcquireSpinLock s =
     (if SpinLock (MetaCache s) then None
      else Some (s\<lparr>MetaCache := (MetaCache s)\<lparr>SpinLock := True\<rparr>\<rparr>))"

definition KeReleaseSpinLock :: "state \<Rightarrow> state option" where
  "KeReleaseSpinLock s =
     (if SpinLock (MetaCache s) then Some (s\<lparr>MetaCache := (MetaCache s)\<lparr>SpinLock := False\<rparr>\<rparr>)
      else None)"

definition KeQueryInterruptTime :: "state \<Rightarrow> UINT64" where
  "KeQueryInterruptTime s = InterruptTime s"

subsection \<open>Slots: what a \<^verbatim>\<open>FSP_META_CACHE_ITEM **\<close> points at\<close>

text \<open>The unlinking loops walk a pointer \<^verbatim>\<open>P\<close> to a pointer: first
  \<^verbatim>\<open>&MetaCache->ItemBuckets[HashIndex]\<close>, then \<^verbatim>\<open>&(*P)->DictNext\<close>.\<close>

datatype slot = BucketSlot ULONG | DictNextSlot ptr

definition load_slot :: "slot \<Rightarrow> state \<Rightarrow> ptr option" where
  "load_slot P s =
     (case P of
        BucketSlot i \<Rightarrow>
          if unat i < length (ItemBuckets (MetaCache s))
          then Some (ItemBuckets (MetaCache s) ! unat i) else None
      | DictNextSlot q \<Rightarrow> map_option DictNext (ItemHeap s q))"

definition store_slot :: "slot \<Rightarrow> ptr \<Rightarrow> state \<Rightarrow> state option" where
  "store_slot P v s =
     (case P of
        BucketSlot i \<Rightarrow>
          if unat i < length (ItemBuckets (MetaCache s))
          then Some (s\<lparr>MetaCache := (MetaCache s)
                        \<lparr>ItemBuckets := (ItemBuckets (MetaCache s))[unat i := v]\<rparr>\<rparr>)
          else None
      | DictNextSlot q \<Rightarrow>
          (case ItemHeap s q of
             None \<Rightarrow> None
           | Some it \<Rightarrow> Some (s\<lparr>ItemHeap := (ItemHeap s)(q \<mapsto> it\<lparr>DictNext := v\<rparr>)\<rparr>)))"

text \<open>\<^verbatim>\<open>HashIndex = ItemIndex % MetaCache->ItemBucketCount\<close>: the remainder is taken
  on 64 bits and stored in a \<^verbatim>\<open>ULONG\<close>.\<close>

definition HashIndex_of :: "UINT64 \<Rightarrow> state \<Rightarrow> ULONG option" where
  "HashIndex_of Idx s =
     (if ItemBucketCount (MetaCache s) = 0 then None
      else Some (ucast (Idx mod ucast (ItemBucketCount (MetaCache s)))))"

subsection \<open>Operations\<close>

text \<open>\<^verbatim>\<open>MetaCacheDereferenceItem\<close> (meta.c:26-36).\<close>

definition MetaCacheDereferenceItem :: "ptr \<Rightarrow> state \<Rightarrow> state option" where
  "MetaCacheDereferenceItem p s =
     (case ItemHeap s p of
        None \<Rightarrow> None
      | Some it \<Rightarrow>
          let s1 = s\<lparr>ItemHeap := (ItemHeap s)(p \<mapsto> it\<lparr>RefCount := RefCount it - 1\<rparr>)\<rparr>
          in if RefCount it - 1 = 0
             then (case FspFree_Buffer (ItemBuffer it) s1 of
                     None \<Rightarrow> None
                   | Some s2 \<Rightarrow> FspFree_Item p s2)
             else Some s1)"

datatype NTSTATUS = STATUS_SUCCESS | STATUS_INSUFFICIENT_RESOURCES

text \<open>\<^verbatim>\<open>MetaCacheCreate\<close> (meta.c:38-61). \<open>BucketCount\<close> stands for the constant
  \<^verbatim>\<open>(PAGE_SIZE - sizeof *MetaCache) / sizeof MetaCache->ItemBuckets[0]\<close>, whose operands
  are declared outside meta.c. The page is taken from the allocator (\<open>pool\<close>), zeroed
  and filled in; \<open>now\<close> is the interrupt time of the machine.\<close>

definition MetaCacheCreate ::
  "ptr list \<Rightarrow> UINT64 \<Rightarrow> ULONG \<Rightarrow> ULONG \<Rightarrow> ULONG \<Rightarrow> UINT64 \<Rightarrow> NTSTATUS + state" where
  "MetaCacheCreate pool now BucketCount Capacity SizeMax Timeout =
     (case pool of
        [] \<Rightarrow> Inl STATUS_INSUFFICIENT_RESOURCES
      | p # ps \<Rightarrow>
          if p = 0 then Inl STATUS_INSUFFICIENT_RESOURCES
          else Inr \<lparr>MetaCache =
                      \<lparr>SpinLock = False, ItemList = [], MetaCapacity = Capacity,
                       ItemSizeMax = SizeMax, MetaTimeout = Timeout,
                       ItemBucketCount = BucketCount, ItemCount = 0, NextItemIndex = 0,
                       ItemBuckets = replicate (unat BucketCount) 0\<rparr>,
                    ItemHeap = Map.empty, BufferHeap = Map.empty,
                    Pool = ps, InterruptTime = now\<rparr>)"

text \<open>The loop of meta.c:88-94: walk the chain of the bucket and unlink the item whose
  address is \<open>p\<close>, if it is there.\<close>

partial_function (option) unlink_item :: "ptr \<Rightarrow> slot \<Rightarrow> state \<Rightarrow> state option" where
  [code]: "unlink_item p P s =
     do {
       q \<leftarrow> load_slot P s;
       if q = 0 then Some s
       else if q = p then
         do { n \<leftarrow> load_slot (DictNextSlot q) s; store_slot P n s }
       else unlink_item p (DictNextSlot q) s
     }"

text \<open>One turn of the loop of \<^verbatim>\<open>MetaCacheInvalidateItems\<close>, meta.c:78-101: the part
  under the spin lock. The result is \<^verbatim>\<open>Item\<close>: the address of the item taken off the
  cache, or \<open>0\<close>.\<close>

definition MetaCacheInvalidateItems_locked :: "UINT64 \<Rightarrow> state \<Rightarrow> (ptr \<times> state) option" where
  "MetaCacheInvalidateItems_locked Expiration s =
     do {
       s1 \<leftarrow> KeAcquireSpinLock s;
       (p, s2) \<leftarrow>
         (case ItemList (MetaCache s1) of
            [] \<Rightarrow> Some (0, s1)
          | Entry # _ \<Rightarrow>
              do {
                it \<leftarrow> ItemHeap s1 Entry;
                if ExpirationTime it \<le> Expiration then
                  do {
                    HashIndex \<leftarrow> HashIndex_of (ItemIndex it) s1;
                    s' \<leftarrow> unlink_item Entry (BucketSlot HashIndex) s1;
                    Some (Entry, s'\<lparr>MetaCache := (MetaCache s')
                            \<lparr>ItemList := remove1 Entry (ItemList (MetaCache s')),
                             ItemCount := ItemCount (MetaCache s') - 1\<rparr>\<rparr>)
                  }
                else Some (0, s1)
              });
       s3 \<leftarrow> KeReleaseSpinLock s2;
       Some (p, s3)
     }"

text \<open>\<^verbatim>\<open>MetaCacheInvalidateItems\<close> (meta.c:69-108).\<close>

partial_function (option) MetaCacheInvalidateItems :: "UINT64 \<Rightarrow> state \<Rightarrow> state option" where
  [code]: "MetaCacheInvalidateItems Expiration s =
     do {
       (p, s1) \<leftarrow> MetaCacheInvalidateItems_locked Expiration s;
       if p = 0 then Some s1
       else do { s2 \<leftarrow> MetaCacheDereferenceItem p s1; MetaCacheInvalidateItems Expiration s2 }
     }"

text \<open>\<^verbatim>\<open>MetaCacheInvalidateAll\<close> (meta.c:110-113); \<^verbatim>\<open>(UINT64)-1LL\<close> is \<open>- 1\<close> on
  64 bits.\<close>

definition MetaCacheInvalidateAll :: "state \<Rightarrow> state option" where
  "MetaCacheInvalidateAll s = MetaCacheInvalidateItems (- 1) s"

text \<open>\<^verbatim>\<open>MetaCacheInvalidateExpired\<close> (meta.c:115-118).\<close>

definition MetaCacheInvalidateExpired :: "state \<Rightarrow> state option" where
  "MetaCacheInvalidateExpired s = MetaCacheInvalidateItems (KeQueryInterruptTime s) s"

text \<open>The loop of meta.c:129-135: the first item of the chain with the index, its
  reference count incremented; \<open>0\<close> when the chain has none.\<close>

partial_function (option) reference_scan :: "UINT64 \<Rightarrow> ptr \<Rightarrow> state \<Rightarrow> (ptr \<times> state) option" where
  [code]: "reference_scan Idx ItemX s =
     (if ItemX = 0 then Some (0, s)
      else
        do {
          it \<leftarrow> ItemHeap s ItemX;
          if ItemIndex it = Idx
          then Some (ItemX, s\<lparr>ItemHeap := (ItemHeap s)(ItemX \<mapsto> it\<lparr>RefCount := RefCount it + 1\<rparr>)\<rparr>)
          else reference_scan Idx (DictNext it) s
        })"

text \<open>\<^verbatim>\<open>MetaCacheReferenceItemBuffer\<close> (meta.c:120-149). \<open>PSize\<close> is \<open>None\<close> for a null
  pointer and \<open>Some v\<close> for a pointer to a \<^verbatim>\<open>ULONG\<close> that holds \<open>v\<close>; the result gives
  the returned pointer, what \<open>PSize\<close> points to afterwards, and the state. The address
  of the payload \<^verbatim>\<open>ItemBuffer->Buffer\<close> is the address of the buffer plus the size of
  its header.\<close>

definition MetaCacheReferenceItemBuffer ::
  "UINT64 \<Rightarrow> ULONG option \<Rightarrow> state \<Rightarrow> (ptr \<times> ULONG option \<times> state) option" where
  "MetaCacheReferenceItemBuffer Idx PSize s =
     do {
       s1 \<leftarrow> KeAcquireSpinLock s;
       HashIndex \<leftarrow> HashIndex_of Idx s1;
       head \<leftarrow> load_slot (BucketSlot HashIndex) s1;
       (p, s2) \<leftarrow> reference_scan Idx head s1;
       s3 \<leftarrow> KeReleaseSpinLock s2;
       if p = 0 then Some (0, map_option (\<lambda>_. 0) PSize, s3)
       else
         do {
           it \<leftarrow> ItemHeap s3 p;
           b \<leftarrow> BufferHeap s3 (ItemBuffer it);
           Some (ItemBuffer it + sizeof_ItemBuffer, map_option (\<lambda>_. Size b) PSize, s3)
         }
     }"

text \<open>\<^verbatim>\<open>MetaCacheDereferenceItemBuffer\<close> (meta.c:151-155): the header is at the fixed
  offset below the payload.\<close>

definition MetaCacheDereferenceItemBuffer :: "ptr \<Rightarrow> state \<Rightarrow> state option" where
  "MetaCacheDereferenceItemBuffer Buf s =
     (if Buf < sizeof_ItemBuffer then None
      else
        do {
          b \<leftarrow> BufferHeap s (Buf - sizeof_ItemBuffer);
          MetaCacheDereferenceItem (Item b) s
        })"

text \<open>The part of \<^verbatim>\<open>MetaCacheAddItem\<close> under the spin lock, meta.c:190-209. The
  result is \<^verbatim>\<open>ItemIndex\<close> and \<^verbatim>\<open>HasCapacity\<close>. The assertion of the debug build
  (meta.c:202-205) is not part of the release build and is left out.\<close>

definition MetaCacheAddItem_locked :: "ptr \<Rightarrow> state \<Rightarrow> (UINT64 \<times> bool \<times> state) option" where
  "MetaCacheAddItem_locked p s =
     do {
       s1 \<leftarrow> KeAcquireSpinLock s;
       (Idx, HasCapacity, s2) \<leftarrow>
         (if ItemCount (MetaCache s1) < MetaCapacity (MetaCache s1) then
            do {
              let Idx = (if NextItemIndex (MetaCache s1) = - 1 then 1
                         else NextItemIndex (MetaCache s1) + 1);
              it \<leftarrow> ItemHeap s1 p;
              HashIndex \<leftarrow> HashIndex_of Idx s1;
              head \<leftarrow> load_slot (BucketSlot HashIndex) s1;
              let sa = s1\<lparr>MetaCache := (MetaCache s1)
                            \<lparr>NextItemIndex := Idx,
                             ItemCount := ItemCount (MetaCache s1) + 1,
                             ItemList := ItemList (MetaCache s1) @ [p]\<rparr>,
                          ItemHeap := (ItemHeap s1)(p \<mapsto> it\<lparr>ItemIndex := Idx, DictNext := head\<rparr>)\<rparr>;
              sb \<leftarrow> store_slot (BucketSlot HashIndex) p sa;
              Some (Idx, True, sb)
            }
          else Some (0, False, s1));
       s3 \<leftarrow> KeReleaseSpinLock s2;
       Some (Idx, HasCapacity, s3)
     }"

text \<open>\<^verbatim>\<open>MetaCacheAddItem\<close> (meta.c:157-218). \<open>Buf\<close> is the memory at the caller's
  \<^verbatim>\<open>Buffer\<close>; reading \<open>Size\<close> bytes where fewer are readable has no defined behaviour.
  The size test adds a \<^verbatim>\<open>size_t\<close> and a \<^verbatim>\<open>ULONG\<close> on 64 bits.\<close>

definition MetaCacheAddItem :: "UINT8 list \<Rightarrow> ULONG \<Rightarrow> state \<Rightarrow> (UINT64 \<times> state) option" where
  "MetaCacheAddItem Buf Sz s =
     (if (word_of_nat sizeof_ItemBuffer :: 64 word) + ucast Sz > ucast (ItemSizeMax (MetaCache s))
      then Some (0, s)
      else
        do {
          (p, s1) \<leftarrow> FspAllocNonPaged_Item s;
          if p = 0 then Some (0, s1)
          else
            do {
              (b, s2) \<leftarrow> FspAlloc_Buffer s1;
              if b = 0 then do { s3 \<leftarrow> FspFree_Item p s2; Some (0, s3) }
              else
                do {
                  let s3 = s2\<lparr>ItemHeap := (ItemHeap s2)(p \<mapsto> zero_item
                                 \<lparr>ItemBuffer := b,
                                  ExpirationTime := KeQueryInterruptTime s2 + MetaTimeout (MetaCache s2),
                                  RefCount := 1\<rparr>)\<rparr>;
                  payload \<leftarrow> (if unat Sz \<le> length Buf then Some (take (unat Sz) Buf) else None);
                  let s4 = s3\<lparr>BufferHeap := (BufferHeap s3)(b \<mapsto> zero_buffer
                                 \<lparr>Item := p, Size := Sz, Buffer := payload\<rparr>)\<rparr>;
                  (Idx, HasCapacity, s5) \<leftarrow> MetaCacheAddItem_locked p s4;
                  s6 \<leftarrow> (if \<not> HasCapacity
                         then do { sa \<leftarrow> FspFree_Buffer b s5; FspFree_Item p sa }
                         else Some s5);
                  Some (Idx, s6)
                }
            }
        })"

text \<open>\<^verbatim>\<open>MetaCacheInvalidateItem\<close>: the loop of meta.c:228-236.\<close>

partial_function (option) invalidate_scan :: "UINT64 \<Rightarrow> slot \<Rightarrow> state \<Rightarrow> (ptr \<times> state) option" where
  [code]: "invalidate_scan Idx P s =
     do {
       q \<leftarrow> load_slot P s;
       if q = 0 then Some (0, s)
       else
         do {
           it \<leftarrow> ItemHeap s q;
           if ItemIndex it = Idx then
             do {
               s1 \<leftarrow> store_slot P (DictNext it) s;
               Some (q, s1\<lparr>MetaCache := (MetaCache s1)
                       \<lparr>ItemList := remove1 q (ItemList (MetaCache s1)),
                        ItemCount := ItemCount (MetaCache s1) - 1\<rparr>\<rparr>)
             }
           else invalidate_scan Idx (DictNextSlot q) s
         }
     }"

text \<open>\<^verbatim>\<open>MetaCacheInvalidateItem\<close> (meta.c:220-241).\<close>

definition MetaCacheInvalidateItem :: "UINT64 \<Rightarrow> state \<Rightarrow> state option" where
  "MetaCacheInvalidateItem Idx s =
     do {
       s1 \<leftarrow> KeAcquireSpinLock s;
       HashIndex \<leftarrow> HashIndex_of Idx s1;
       (p, s2) \<leftarrow> invalidate_scan Idx (BucketSlot HashIndex) s1;
       s3 \<leftarrow> KeReleaseSpinLock s2;
       if p \<noteq> 0 then MetaCacheDereferenceItem p s3 else Some s3
     }"

subsection \<open>Clients and the environment\<close>

text \<open>A call of a client, or a move of the environment (\<open>Tick\<close>: the interrupt time
  advances).\<close>

datatype call =
    Add "UINT8 list" ULONG
  | Borrow UINT64 "ULONG option"
  | Return ptr
  | Invalidate UINT64
  | InvalidateExpired
  | InvalidateAll
  | Tick UINT64

text \<open>The machine state together with the payload pointers that clients have borrowed
  and not yet returned (a pointer borrowed twice is there twice).\<close>

type_synonym world = "state \<times> ptr list"

text \<open>One call. The contract of the clients and of the environment is part of it: a
  client returns only a pointer that it has borrowed, once for each borrow; the
  borrows that are outstanding fit the reference count; the interrupt time never
  decreases (it does not wrap).\<close>

fun exec :: "call \<Rightarrow> world \<Rightarrow> world option" where
  "exec (Add Buf Sz) (s, B) =
     map_option (\<lambda>(h, s'). (s', B)) (MetaCacheAddItem Buf Sz s)"
| "exec (Borrow Idx PSize) (s, B) =
     (if length B + 2 < 2 ^ 32
      then map_option (\<lambda>(p, sz, s'). (s', if p = 0 then B else p # B))
             (MetaCacheReferenceItemBuffer Idx PSize s)
      else None)"
| "exec (Return p) (s, B) =
     (if p \<in> set B
      then map_option (\<lambda>s'. (s', remove1 p B)) (MetaCacheDereferenceItemBuffer p s)
      else None)"
| "exec (Invalidate Idx) (s, B) = map_option (\<lambda>s'. (s', B)) (MetaCacheInvalidateItem Idx s)"
| "exec InvalidateExpired (s, B) = map_option (\<lambda>s'. (s', B)) (MetaCacheInvalidateExpired s)"
| "exec InvalidateAll (s, B) = map_option (\<lambda>s'. (s', B)) (MetaCacheInvalidateAll s)"
| "exec (Tick d) (s, B) =
     (if unat (InterruptTime s) + unat d < 2 ^ 64
      then Some (s\<lparr>InterruptTime := InterruptTime s + d\<rparr>, B)
      else None)"

fun run :: "call list \<Rightarrow> world \<Rightarrow> world option" where
  "run [] w = Some w"
| "run (c # cs) w = (case exec c w of None \<Rightarrow> None | Some w' \<Rightarrow> run cs w')"

text \<open>The states of a cache that was created (with at least one bucket) and then used
  by calls that run one after the other. Calls that overlap are in \<open>interleaved\<close>, below.\<close>

inductive reachable :: "world \<Rightarrow> bool" where
  created:
    "BucketCount \<noteq> 0 \<Longrightarrow>
     MetaCacheCreate pool now BucketCount Capacity SizeMax Timeout = Inr s \<Longrightarrow>
     reachable (s, [])"
| called:
    "reachable w \<Longrightarrow> exec c w = Some w' \<Longrightarrow> reachable w'"

subsection \<open>What the claims speak of\<close>

text \<open>The items of a bucket chain: \<open>chain h p xs\<close> holds when following \<open>DictNext\<close>
  from \<open>p\<close> visits the items \<open>xs\<close> and then reaches the null pointer.\<close>

fun chain :: "(ptr \<rightharpoonup> FSP_META_CACHE_ITEM) \<Rightarrow> ptr \<Rightarrow> ptr list \<Rightarrow> bool" where
  "chain h p [] = (p = 0)"
| "chain h p (x # xs) =
     (p = x \<and> x \<noteq> 0 \<and> (case h x of None \<Rightarrow> False | Some it \<Rightarrow> chain h (DictNext it) xs))"

text \<open>The number of items on the chain that starts at \<open>p\<close>.\<close>

partial_function (option) chain_length :: "(ptr \<rightharpoonup> FSP_META_CACHE_ITEM) \<Rightarrow> ptr \<Rightarrow> nat option" where
  [code]: "chain_length h p =
     (if p = 0 then Some 0
      else do { it \<leftarrow> h p; n \<leftarrow> chain_length h (DictNext it); Some (Suc n) })"

text \<open>The total number of items across all bucket chains.\<close>

definition bucket_total :: "state \<Rightarrow> nat option" where
  "bucket_total s =
     map_option sum_list
       (those (map (chain_length (ItemHeap s)) (ItemBuckets (MetaCache s))))"

text \<open>The expiration times along the list, head first.\<close>

definition expirations :: "state \<Rightarrow> UINT64 list option" where
  "expirations s =
     those (map (\<lambda>p. map_option ExpirationTime (ItemHeap s p)) (ItemList (MetaCache s)))"

definition list_sorted :: "state \<Rightarrow> bool" where
  "list_sorted s = (case expirations s of None \<Rightarrow> False | Some es \<Rightarrow> sorted es)"

text \<open>The bytes behind a payload pointer.\<close>

definition payload_at :: "ptr \<Rightarrow> state \<Rightarrow> UINT8 list option" where
  "payload_at Buf s =
     (if Buf < sizeof_ItemBuffer then None
      else map_option Buffer (BufferHeap s (Buf - sizeof_ItemBuffer)))"

text \<open>A chain has no item with the index.\<close>

definition no_index :: "(ptr \<rightharpoonup> FSP_META_CACHE_ITEM) \<Rightarrow> UINT64 \<Rightarrow> ptr \<Rightarrow> bool" where
  "no_index h Idx x = (case h x of None \<Rightarrow> True | Some it \<Rightarrow> ItemIndex it \<noteq> Idx)"

text \<open>The chain that starts at \<open>head\<close> holds, once each, the items of the list \<open>L\<close>
  whose index belongs to bucket \<open>i\<close> of \<open>n\<close>.\<close>

definition bucket_ok ::
  "nat \<Rightarrow> ptr list \<Rightarrow> (ptr \<rightharpoonup> FSP_META_CACHE_ITEM) \<Rightarrow> nat \<Rightarrow> ptr \<Rightarrow> bool" where
  "bucket_ok n L h i head =
     (\<exists>xs. chain h head xs \<and> distinct xs \<and>
           set xs = {p \<in> set L. \<exists>it. h p = Some it \<and> unat (ItemIndex it) mod n = i})"

text \<open>The structure of the cache is consistent: the buckets are there, \<open>ItemCount\<close> is
  the length of the list, the list has no item twice and only live items, and the
  chains hold the items of the list.\<close>

definition struct_ok ::
  "ULONG \<Rightarrow> ptr list \<Rightarrow> ULONG \<Rightarrow> ptr list \<Rightarrow> (ptr \<rightharpoonup> FSP_META_CACHE_ITEM) \<Rightarrow> bool" where
  "struct_ok n bk cnt L h =
     (n \<noteq> 0 \<and> length bk = unat n \<and> unat cnt = length L \<and> distinct L \<and> h 0 = None \<and>
      (\<forall>p \<in> set L. h p \<noteq> None) \<and>
      (\<forall>i < length bk. bucket_ok (unat n) L h i (bk ! i)))"

definition struct_wf :: "state \<Rightarrow> bool" where
  "struct_wf s =
     struct_ok (ItemBucketCount (MetaCache s)) (ItemBuckets (MetaCache s))
       (ItemCount (MetaCache s)) (ItemList (MetaCache s)) (ItemHeap s)"

text \<open>The number of references that are held on an item: one by the cache while the
  item is on its list, one by each outstanding borrow of its payload.\<close>

definition holders :: "ptr list \<Rightarrow> ptr list \<Rightarrow> ptr \<Rightarrow> FSP_META_CACHE_ITEM \<Rightarrow> nat" where
  "holders L B p it =
     (if p \<in> set L then 1 else 0) + count_list B (ItemBuffer it + sizeof_ItemBuffer)"

text \<open>Items and buffers come in pairs that point at each other, the reference count
  of an item counts its holders and is not zero, and every outstanding borrow is a
  pointer to the payload of a live buffer. While an operation has taken the item at
  \<open>X\<close> off the list and not yet released the reference of the cache, that item has
  one reference more; \<open>X\<close> is \<open>0\<close> between operations.\<close>

definition heap_ok ::
  "ptr \<Rightarrow> ptr list \<Rightarrow> (ptr \<rightharpoonup> FSP_META_CACHE_ITEM) \<Rightarrow> (ptr \<rightharpoonup> FSP_META_CACHE_ITEM_BUFFER) \<Rightarrow>
   ptr list \<Rightarrow> bool" where
  "heap_ok X L h bh B =
     ((\<forall>p it. h p = Some it \<longrightarrow>
          (\<exists>b. bh (ItemBuffer it) = Some b \<and> Item b = p \<and> unat (Size b) = length (Buffer b)) \<and>
          unat (RefCount it) = holders L B p it + (if p = X then 1 else 0) \<and>
          RefCount it \<noteq> 0) \<and>
      (\<forall>q b. bh q = Some b \<longrightarrow> (\<exists>it. h (Item b) = Some it \<and> ItemBuffer it = q)) \<and>
      (\<forall>p \<in> set B. sizeof_ItemBuffer \<le> p \<and> bh (p - sizeof_ItemBuffer) \<noteq> None))"

definition heap_inv :: "ptr \<Rightarrow> world \<Rightarrow> bool" where
  "heap_inv X w =
     heap_ok X (ItemList (MetaCache (fst w))) (ItemHeap (fst w)) (BufferHeap (fst w)) (snd w)"

text \<open>A state between two operations.\<close>

definition consistent :: "world \<Rightarrow> bool" where
  "consistent w = (\<not> SpinLock (MetaCache (fst w)) \<and> struct_wf (fst w) \<and> heap_inv 0 w)"

text \<open>What an operation that inserts nothing leaves of the state: the parameters of
  the cache, the clock and the allocator are untouched, items leave the list without
  changing its order, and an item or a buffer that is still live has kept its
  contents (the link and the reference count of an item apart).\<close>

definition shrinks :: "state \<Rightarrow> state \<Rightarrow> bool" where
  "shrinks s s' =
     (MetaCapacity (MetaCache s') = MetaCapacity (MetaCache s) \<and>
      ItemSizeMax (MetaCache s') = ItemSizeMax (MetaCache s) \<and>
      MetaTimeout (MetaCache s') = MetaTimeout (MetaCache s) \<and>
      ItemBucketCount (MetaCache s') = ItemBucketCount (MetaCache s) \<and>
      NextItemIndex (MetaCache s') = NextItemIndex (MetaCache s) \<and>
      InterruptTime s' = InterruptTime s \<and> Pool s' = Pool s \<and>
      (\<exists>P. ItemList (MetaCache s') = filter P (ItemList (MetaCache s))) \<and>
      (\<forall>q it'. ItemHeap s' q = Some it' \<longrightarrow>
         (\<exists>it. ItemHeap s q = Some it \<and> ItemBuffer it' = ItemBuffer it \<and>
               ExpirationTime it' = ExpirationTime it \<and> ItemIndex it' = ItemIndex it)) \<and>
      (\<forall>b x. BufferHeap s' b = Some x \<longrightarrow> BufferHeap s b = Some x))"

text \<open>The state in which \<open>MetaCacheAddItem\<close> enters its locked section (meta.c:169-188):
  both blocks are allocated, the item and the buffer are filled in.\<close>

definition prepared :: "ptr \<Rightarrow> ptr \<Rightarrow> UINT8 list \<Rightarrow> ULONG \<Rightarrow> state \<Rightarrow> state" where
  "prepared p b Buf Sz s =
     s\<lparr>Pool := tl (tl (Pool s)),
        ItemHeap := (ItemHeap s)
           (p \<mapsto> \<lparr>DictNext = 0, ItemBuffer = b, ItemIndex = 0,
                  ExpirationTime = InterruptTime s + MetaTimeout (MetaCache s), RefCount = 1\<rparr>),
        BufferHeap := (BufferHeap s)
           (b \<mapsto> \<lparr>Item = p, Size = Sz, Buffer = take (unat Sz) Buf\<rparr>)\<rparr>"

text \<open>What an insertion leaves of the state: the parameters and the clock are
  untouched, the items and buffers that were live are unchanged, and the list is the
  same or has one new item at its tail, which expires at the interrupt time plus the
  timeout.\<close>

definition grows :: "state \<Rightarrow> state \<Rightarrow> bool" where
  "grows s s' =
     (MetaCapacity (MetaCache s') = MetaCapacity (MetaCache s) \<and>
      ItemSizeMax (MetaCache s') = ItemSizeMax (MetaCache s) \<and>
      MetaTimeout (MetaCache s') = MetaTimeout (MetaCache s) \<and>
      ItemBucketCount (MetaCache s') = ItemBucketCount (MetaCache s) \<and>
      InterruptTime s' = InterruptTime s \<and>
      (\<forall>q it. ItemHeap s q = Some it \<longrightarrow> ItemHeap s' q = Some it) \<and>
      (\<forall>b x. BufferHeap s b = Some x \<longrightarrow> BufferHeap s' b = Some x) \<and>
      (ItemList (MetaCache s') = ItemList (MetaCache s) \<and> ItemHeap s' = ItemHeap s \<or>
       (\<exists>p it. ItemList (MetaCache s') = ItemList (MetaCache s) @ [p] \<and>
          ItemHeap s p = None \<and> ItemHeap s' = (ItemHeap s)(p \<mapsto> it) \<and>
          ExpirationTime it = InterruptTime s + MetaTimeout (MetaCache s))))"

text \<open>The handle allocator in the words of the specification: the handle after
  \<open>next_handle\<close> is \<open>next_handle + 1\<close>, except that the handle after the unsigned
  64-bit maximum is \<open>1\<close>.\<close>

definition next_handle :: "UINT64 \<Rightarrow> UINT64" where
  "next_handle n = (if unat n = 2 ^ 64 - 1 then 1 else word_of_nat (unat n + 1))"

text \<open>The list is sorted and no item expires later than an item inserted now would.\<close>

definition expiry_ok :: "state \<Rightarrow> bool" where
  "expiry_ok s =
     (sorted (map (\<lambda>p. ExpirationTime (the (ItemHeap s p))) (ItemList (MetaCache s))) \<and>
      (\<forall>p \<in> set (ItemList (MetaCache s)).
         unat (ExpirationTime (the (ItemHeap s p)))
           \<le> unat (InterruptTime s) + unat (MetaTimeout (MetaCache s))))"

subsection \<open>Calls that overlap\<close>

text \<open>The calls of different threads overlap: a thread runs alone only while it holds
  the spin lock. Each operation that changes the list is cut where it takes and where it
  releases the lock, and the sections of different calls are interleaved in any order.
  A section outside the lock works on what no other thread can reach (the blocks that
  \<^verbatim>\<open>MetaCacheAddItem\<close> has allocated and not yet inserted, an item whose last reference
  is being released) or is one interlocked operation or one read; the read of the
  interrupt time at meta.c:182 is in the section of \<^verbatim>\<open>MetaCacheAddItem\<close> that precedes
  the lock, so any number of other sections, of any calls, and any advance of the
  interrupt time can come between that read and the insertion at meta.c:200.\<close>

text \<open>\<^verbatim>\<open>MetaCacheAddItem\<close> up to the spin lock, meta.c:166-188: the size test, the two
  allocations, and the filling of the item and of the buffer, with the read of the
  interrupt time at meta.c:182. The result is \<open>None\<close> when the call has returned \<open>0\<close>,
  and \<^verbatim>\<open>Item\<close> and \<^verbatim>\<open>ItemBuffer\<close> when it has reached meta.c:190.\<close>

definition MetaCacheAddItem_unlocked ::
  "UINT8 list \<Rightarrow> ULONG \<Rightarrow> state \<Rightarrow> ((ptr \<times> ptr) option \<times> state) option" where
  "MetaCacheAddItem_unlocked Buf Sz s =
     (if (word_of_nat sizeof_ItemBuffer :: 64 word) + ucast Sz > ucast (ItemSizeMax (MetaCache s))
      then Some (None, s)
      else
        do {
          (p, s1) \<leftarrow> FspAllocNonPaged_Item s;
          if p = 0 then Some (None, s1)
          else
            do {
              (b, s2) \<leftarrow> FspAlloc_Buffer s1;
              if b = 0 then do { s3 \<leftarrow> FspFree_Item p s2; Some (None, s3) }
              else
                do {
                  let s3 = s2\<lparr>ItemHeap := (ItemHeap s2)(p \<mapsto> zero_item
                                 \<lparr>ItemBuffer := b,
                                  ExpirationTime := KeQueryInterruptTime s2 + MetaTimeout (MetaCache s2),
                                  RefCount := 1\<rparr>)\<rparr>;
                  payload \<leftarrow> (if unat Sz \<le> length Buf then Some (take (unat Sz) Buf) else None);
                  let s4 = s3\<lparr>BufferHeap := (BufferHeap s3)(b \<mapsto> zero_buffer
                                 \<lparr>Item := p, Size := Sz, Buffer := payload\<rparr>)\<rparr>;
                  Some (Some (p, b), s4)
                }
            }
        })"

text \<open>\<^verbatim>\<open>MetaCacheAddItem\<close> from the spin lock on, meta.c:190-217.\<close>

definition MetaCacheAddItem_rest :: "ptr \<Rightarrow> ptr \<Rightarrow> state \<Rightarrow> (UINT64 \<times> state) option" where
  "MetaCacheAddItem_rest p b s =
     do {
       (Idx, HasCapacity, s5) \<leftarrow> MetaCacheAddItem_locked p s;
       s6 \<leftarrow> (if \<not> HasCapacity
              then do { sa \<leftarrow> FspFree_Buffer b s5; FspFree_Item p sa }
              else Some s5);
       Some (Idx, s6)
     }"

text \<open>The part of \<^verbatim>\<open>MetaCacheInvalidateItem\<close> under the spin lock, meta.c:226-237. The
  result is \<^verbatim>\<open>Item\<close>.\<close>

definition MetaCacheInvalidateItem_locked :: "UINT64 \<Rightarrow> state \<Rightarrow> (ptr \<times> state) option" where
  "MetaCacheInvalidateItem_locked Idx s =
     do {
       s1 \<leftarrow> KeAcquireSpinLock s;
       HashIndex \<leftarrow> HashIndex_of Idx s1;
       (p, s2) \<leftarrow> invalidate_scan Idx (BucketSlot HashIndex) s1;
       s3 \<leftarrow> KeReleaseSpinLock s2;
       Some (p, s3)
     }"

text \<open>A call in flight, between two of its sections, with the local variables that it
  still needs.
  \<^item> \<open>Adding Item ItemBuffer\<close>: \<^verbatim>\<open>MetaCacheAddItem\<close> at meta.c:190, before the lock.
  \<^item> \<open>Sweeping ExpirationTime\<close>: \<^verbatim>\<open>MetaCacheInvalidateItems\<close> at meta.c:78, at the top
    of its loop.
  \<^item> \<open>Dropping Item b k\<close>: \<^verbatim>\<open>MetaCacheInvalidateItems\<close> at meta.c:106 (\<open>k\<close> is its
    \<^verbatim>\<open>ExpirationTime\<close>) or \<^verbatim>\<open>MetaCacheInvalidateItem\<close> at meta.c:240 (\<open>k\<close> is \<open>None\<close>),
    after the lock and before \<^verbatim>\<open>MetaCacheDereferenceItem(Item)\<close>; \<open>b\<close> is
    \<^verbatim>\<open>Item->ItemBuffer\<close>.\<close>

datatype task =
    Adding ptr ptr
  | Sweeping UINT64
  | Dropping ptr ptr "UINT64 option"

text \<open>A thread starts a call and runs its first section, or a call in flight runs its
  next section.\<close>

datatype move = Enter call | Resume task

text \<open>The machine state, the payload pointers that clients have borrowed and not yet
  returned, and the calls in flight.\<close>

type_synonym cworld = "state \<times> ptr list \<times> task list"

text \<open>The first section of a call. \<open>Borrow\<close> and \<open>Return\<close> are one section each: after
  its locked section \<^verbatim>\<open>MetaCacheReferenceItemBuffer\<close> only reads two fields that are
  written before the item is inserted (meta.c:181, 187) of an item on which it holds a
  reference, and \<^verbatim>\<open>MetaCacheDereferenceItem\<close> frees an item after the interlocked
  decrement has left it without a holder. The clients return only what they have
  borrowed, and the borrows that are outstanding and the calls in flight fit the
  reference count.\<close>

fun enter :: "call \<Rightarrow> cworld \<Rightarrow> cworld option" where
  "enter (Add Buf Sz) (s, B, T) =
     do {
       (r, s1) \<leftarrow> MetaCacheAddItem_unlocked Buf Sz s;
       Some (case r of None \<Rightarrow> (s1, B, T) | Some (p, b) \<Rightarrow> (s1, B, Adding p b # T))
     }"
| "enter (Borrow Idx PSize) (s, B, T) =
     (if length B + length T + 2 < 2 ^ 32
      then map_option (\<lambda>(p, sz, s'). (s', if p = 0 then B else p # B, T))
             (MetaCacheReferenceItemBuffer Idx PSize s)
      else None)"
| "enter (Return p) (s, B, T) =
     (if p \<in> set B
      then map_option (\<lambda>s'. (s', remove1 p B, T)) (MetaCacheDereferenceItemBuffer p s)
      else None)"
| "enter (Invalidate Idx) (s, B, T) =
     do {
       (p, s1) \<leftarrow> MetaCacheInvalidateItem_locked Idx s;
       if p = 0 then Some (s1, B, T)
       else do { it \<leftarrow> ItemHeap s1 p; Some (s1, B, Dropping p (ItemBuffer it) None # T) }
     }"
| "enter InvalidateExpired (s, B, T) = Some (s, B, Sweeping (KeQueryInterruptTime s) # T)"
| "enter InvalidateAll (s, B, T) = Some (s, B, Sweeping (- 1) # T)"
| "enter (Tick d) (s, B, T) =
     (if unat (InterruptTime s) + unat d < 2 ^ 64
      then Some (s\<lparr>InterruptTime := InterruptTime s + d\<rparr>, B, T)
      else None)"

text \<open>The next section of a call in flight.\<close>

fun resume :: "task \<Rightarrow> cworld \<Rightarrow> cworld option" where
  "resume (Adding p b) (s, B, T) =
     do {
       (Idx, s') \<leftarrow> MetaCacheAddItem_rest p b s;
       Some (s', B, remove1 (Adding p b) T)
     }"
| "resume (Sweeping e) (s, B, T) =
     do {
       (p, s1) \<leftarrow> MetaCacheInvalidateItems_locked e s;
       if p = 0 then Some (s1, B, remove1 (Sweeping e) T)
       else do { it \<leftarrow> ItemHeap s1 p;
                 Some (s1, B, Dropping p (ItemBuffer it) (Some e) # remove1 (Sweeping e) T) }
     }"
| "resume (Dropping p b k) (s, B, T) =
     do {
       s' \<leftarrow> MetaCacheDereferenceItem p s;
       Some (s', B, (case k of None \<Rightarrow> [] | Some e \<Rightarrow> [Sweeping e]) @ remove1 (Dropping p b k) T)
     }"

fun cexec :: "move \<Rightarrow> cworld \<Rightarrow> cworld option" where
  "cexec (Enter c) w = enter c w"
| "cexec (Resume t) (s, B, T) = (if t \<in> set T then resume t (s, B, T) else None)"

fun crun :: "move list \<Rightarrow> cworld \<Rightarrow> cworld option" where
  "crun [] w = Some w"
| "crun (m # ms) w = (case cexec m w of None \<Rightarrow> None | Some w' \<Rightarrow> crun ms w')"

text \<open>The states of a cache that was created (with at least one bucket) and then used
  by threads whose calls overlap.\<close>

inductive interleaved :: "cworld \<Rightarrow> bool" where
  created:
    "BucketCount \<noteq> 0 \<Longrightarrow>
     MetaCacheCreate pool now BucketCount Capacity SizeMax Timeout = Inr s \<Longrightarrow>
     interleaved (s, [], [])"
| moved:
    "interleaved w \<Longrightarrow> cexec m w = Some w' \<Longrightarrow> interleaved w'"

text \<open>The insertions in flight: the calls of \<^verbatim>\<open>MetaCacheAddItem\<close> that have read the
  interrupt time and not yet released the lock.\<close>

fun is_Adding :: "task \<Rightarrow> bool" where
  "is_Adding (Adding p b) = True"
| "is_Adding (Sweeping e) = False"
| "is_Adding (Dropping p b k) = False"

definition adding :: "cworld \<Rightarrow> task list" where
  "adding w = filter is_Adding (snd (snd w))"

text \<open>The states that are reached when no two insertions overlap: at every moment at
  most one insertion is in flight. All other calls overlap freely, with the insertion
  and with one another.\<close>

inductive serial_adds :: "cworld \<Rightarrow> bool" where
  created:
    "BucketCount \<noteq> 0 \<Longrightarrow>
     MetaCacheCreate pool now BucketCount Capacity SizeMax Timeout = Inr s \<Longrightarrow>
     serial_adds (s, [], [])"
| moved:
    "serial_adds w \<Longrightarrow> cexec m w = Some w' \<Longrightarrow> length (adding w') \<le> 1 \<Longrightarrow> serial_adds w'"

text \<open>The references that the calls in flight hold, as payload pointers: an insertion
  holds the reference that becomes the reference of the cache, a removal holds the
  reference that was the reference of the cache.\<close>

fun ref_of :: "task \<Rightarrow> ptr list" where
  "ref_of (Adding p b) = [b + sizeof_ItemBuffer]"
| "ref_of (Sweeping e) = []"
| "ref_of (Dropping p b k) = [b + sizeof_ItemBuffer]"

definition refs :: "task list \<Rightarrow> ptr list" where
  "refs T = concat (map ref_of T)"

text \<open>What a call in flight knows of its item: it is live and owns the buffer; the
  item of an insertion is not on the list and nobody else holds a reference on it.\<close>

fun task_ok :: "state \<Rightarrow> task \<Rightarrow> bool" where
  "task_ok s (Adding p b) =
     (case ItemHeap s p of None \<Rightarrow> False
      | Some it \<Rightarrow> ItemBuffer it = b \<and> RefCount it = 1 \<and> p \<notin> set (ItemList (MetaCache s)))"
| "task_ok s (Sweeping e) = True"
| "task_ok s (Dropping p b k) =
     (case ItemHeap s p of None \<Rightarrow> False | Some it \<Rightarrow> ItemBuffer it = b)"

text \<open>A state between two sections.\<close>

definition cconsistent :: "cworld \<Rightarrow> bool" where
  "cconsistent w =
     (case w of (s, B, T) \<Rightarrow> consistent (s, refs T @ B) \<and> (\<forall>t \<in> set T. task_ok s t))"

text \<open>The list is in order, and the item of an insertion in flight expires no earlier
  than the items on the list and no later than an item inserted now would.\<close>

definition cexpiry :: "cworld \<Rightarrow> bool" where
  "cexpiry w =
     (case w of (s, B, T) \<Rightarrow>
        expiry_ok s \<and>
        (\<forall>p b. Adding p b \<in> set T \<longrightarrow>
           (\<forall>q \<in> set (ItemList (MetaCache s)).
              ExpirationTime (the (ItemHeap s q)) \<le> ExpirationTime (the (ItemHeap s p))) \<and>
           unat (ExpirationTime (the (ItemHeap s p)))
             \<le> unat (InterruptTime s) + unat (MetaTimeout (MetaCache s))))"

text \<open>A buffer that stays keeps its owner.\<close>

definition keeps :: "state \<Rightarrow> state \<Rightarrow> bool" where
  "keeps s s' =
     (\<forall>q x x'. BufferHeap s q = Some x \<longrightarrow> BufferHeap s' q = Some x' \<longrightarrow> Item x' = Item x)"

text \<open>What one section leaves of the state: it removes (first case), it leaves the
  cache and the items alone (second case), it prepares a new item that is not yet on the
  list (third case), or it puts the item of an insertion in flight at the tail of the
  list (fourth case).\<close>

definition cframe :: "cworld \<Rightarrow> cworld \<Rightarrow> bool" where
  "cframe w w' =
     (case w of (s, B, T) \<Rightarrow> case w' of (s', B', T') \<Rightarrow>
        (shrinks s s' \<and> (\<forall>t \<in> set T'. is_Adding t \<longrightarrow> t \<in> set T)) \<or>
        (MetaCache s' = MetaCache s \<and> ItemHeap s' = ItemHeap s \<and>
         unat (InterruptTime s) \<le> unat (InterruptTime s') \<and>
         (\<forall>t \<in> set T'. is_Adding t \<longrightarrow> t \<in> set T)) \<or>
        (\<exists>p b it. T' = Adding p b # T \<and> ItemHeap s p = None \<and>
           ItemHeap s' = (ItemHeap s)(p \<mapsto> it) \<and>
           ExpirationTime it = InterruptTime s + MetaTimeout (MetaCache s) \<and>
           MetaCache s' = MetaCache s \<and> InterruptTime s' = InterruptTime s) \<or>
        (\<exists>p b it it'. Adding p b \<in> set T \<and> T' = remove1 (Adding p b) T \<and>
           ItemHeap s p = Some it \<and> ItemHeap s' = (ItemHeap s)(p \<mapsto> it') \<and>
           ExpirationTime it' = ExpirationTime it \<and>
           ItemList (MetaCache s') = ItemList (MetaCache s) @ [p] \<and>
           InterruptTime s' = InterruptTime s \<and>
           MetaTimeout (MetaCache s') = MetaTimeout (MetaCache s)))"

text \<open>A run of moves that stops where a second insertion would be in flight.\<close>

fun serial_run :: "move list \<Rightarrow> cworld \<Rightarrow> cworld option" where
  "serial_run [] w = Some w"
| "serial_run (m # ms) w =
     (case cexec m w of
        None \<Rightarrow> None
      | Some w' \<Rightarrow> if length (adding w') \<le> 1 then serial_run ms w' else None)"

subsection \<open>Example states\<close>

text \<open>A cache of two buckets and capacity 2, as \<open>MetaCacheCreate\<close> returns it, and a
  cache of capacity 0, which is full from the start.\<close>

definition demo_pool :: "ptr list" where
  "demo_pool = [1, 11, 2, 12, 3, 13]"

definition demo :: state where
  "demo = \<lparr>MetaCache =
              \<lparr>SpinLock = False, ItemList = [], MetaCapacity = 2, ItemSizeMax = 4096,
               MetaTimeout = 100, ItemBucketCount = 2, ItemCount = 0, NextItemIndex = 0,
               ItemBuckets = [0, 0]\<rparr>,
            ItemHeap = Map.empty, BufferHeap = Map.empty,
            Pool = demo_pool, InterruptTime = 0\<rparr>"

definition demo_full :: state where
  "demo_full = demo\<lparr>MetaCache := (MetaCache demo)\<lparr>MetaCapacity := 0\<rparr>, Pool := [1, 11]\<rparr>"

text \<open>The cache \<open>demo\<close> with its handle allocator at the 64-bit maximum.\<close>

definition demo_wrap :: state where
  "demo_wrap = demo\<lparr>MetaCache := (MetaCache demo)\<lparr>NextItemIndex := - 1\<rparr>\<rparr>"

text \<open>The cache \<open>demo\<close> after the insertion of the one-byte blob \<open>[7]\<close>.\<close>

definition demo_one :: state where
  "demo_one = demo
       \<lparr>Pool := [2, 12, 3, 13],
        ItemHeap := [1 \<mapsto> \<lparr>DictNext = 0, ItemBuffer = 11, ItemIndex = 1, ExpirationTime = 100,
                             RefCount = 1\<rparr>],
        BufferHeap := [11 \<mapsto> \<lparr>Item = 1, Size = 1, Buffer = [7]\<rparr>],
        MetaCache := (MetaCache demo)
          \<lparr>NextItemIndex := 1, ItemCount := 1, ItemList := [1], ItemBuckets := [0, 1]\<rparr>\<rparr>"

text \<open>The cache \<open>demo_one\<close> after one borrow of handle 1 (the payload pointer is 27), after
  the full drain that follows, and after the return of the borrow.\<close>

definition demo_two :: state where
  "demo_two = demo_one
       \<lparr>ItemHeap := [1 \<mapsto> \<lparr>DictNext = 0, ItemBuffer = 11, ItemIndex = 1, ExpirationTime = 100,
                             RefCount = 2\<rparr>]\<rparr>"

definition demo_held :: state where
  "demo_held = demo_one
       \<lparr>ItemHeap := [1 \<mapsto> \<lparr>DictNext = 0, ItemBuffer = 11, ItemIndex = 1, ExpirationTime = 100,
                             RefCount = 1\<rparr>],
        MetaCache := (MetaCache demo)
          \<lparr>NextItemIndex := 1, ItemCount := 0, ItemList := [], ItemBuckets := [0, 0]\<rparr>\<rparr>"

definition demo_gone :: state where
  "demo_gone = demo_held\<lparr>ItemHeap := Map.empty, BufferHeap := Map.empty\<rparr>"

text \<open>A cache whose timeout is \<open>- 10\<close> (as a \<^verbatim>\<open>LARGE_INTEGER\<close>; \<open>2\<^sup>6\<^sup>4 - 10\<close> as a
  \<^verbatim>\<open>UINT64\<close>), created at interrupt time 5, and the same cache after an insertion at time
  5 and an insertion at time 20.\<close>

definition late_demo :: state where
  "late_demo = demo\<lparr>MetaCache := (MetaCache demo)\<lparr>MetaTimeout := - 10\<rparr>, InterruptTime := 5\<rparr>"

definition late_two :: state where
  "late_two = late_demo
       \<lparr>Pool := [3, 13],
        ItemHeap := [1 \<mapsto> \<lparr>DictNext = 0, ItemBuffer = 11, ItemIndex = 1, ExpirationTime = - 5,
                             RefCount = 1\<rparr>,
                     2 \<mapsto> \<lparr>DictNext = 0, ItemBuffer = 12, ItemIndex = 2, ExpirationTime = 10,
                             RefCount = 1\<rparr>],
        BufferHeap := [11 \<mapsto> \<lparr>Item = 1, Size = 0, Buffer = []\<rparr>,
                       12 \<mapsto> \<lparr>Item = 2, Size = 0, Buffer = []\<rparr>],
        MetaCache := (MetaCache late_demo)
          \<lparr>NextItemIndex := 2, ItemCount := 2, ItemList := [1, 2], ItemBuckets := [2, 1]\<rparr>,
        InterruptTime := 20\<rparr>"

text \<open>Two insertions that overlap: the first reads the interrupt time 0, the second
  reads 20 and is the first to take the lock.\<close>

definition race_two :: state where
  "race_two = demo
       \<lparr>Pool := [3, 13],
        ItemHeap := [2 \<mapsto> \<lparr>DictNext = 0, ItemBuffer = 12, ItemIndex = 1, ExpirationTime = 120,
                             RefCount = 1\<rparr>,
                     1 \<mapsto> \<lparr>DictNext = 0, ItemBuffer = 11, ItemIndex = 2, ExpirationTime = 100,
                             RefCount = 1\<rparr>],
        BufferHeap := [11 \<mapsto> \<lparr>Item = 1, Size = 0, Buffer = []\<rparr>,
                       12 \<mapsto> \<lparr>Item = 2, Size = 0, Buffer = []\<rparr>],
        MetaCache := (MetaCache demo)
          \<lparr>NextItemIndex := 2, ItemCount := 2, ItemList := [2, 1], ItemBuckets := [1, 2]\<rparr>,
        InterruptTime := 20\<rparr>"

text \<open>The cache \<open>demo\<close> after two insertions, at the interrupt times 0 and 20.\<close>

definition demo_pair :: state where
  "demo_pair = demo
       \<lparr>Pool := [3, 13],
        ItemHeap := [1 \<mapsto> \<lparr>DictNext = 0, ItemBuffer = 11, ItemIndex = 1, ExpirationTime = 100,
                             RefCount = 1\<rparr>,
                     2 \<mapsto> \<lparr>DictNext = 0, ItemBuffer = 12, ItemIndex = 2, ExpirationTime = 120,
                             RefCount = 1\<rparr>],
        BufferHeap := [11 \<mapsto> \<lparr>Item = 1, Size = 1, Buffer = [7]\<rparr>,
                       12 \<mapsto> \<lparr>Item = 2, Size = 0, Buffer = []\<rparr>],
        MetaCache := (MetaCache demo)
          \<lparr>NextItemIndex := 2, ItemCount := 2, ItemList := [1, 2], ItemBuckets := [2, 1]\<rparr>,
        InterruptTime := 20\<rparr>"

section \<open>Properties\<close>

subsection \<open>Arithmetic of the machine integers\<close>

lemma unat_ucast_32_64: "unat (ucast (x :: 32 word) :: 64 word) = unat x"
proof -
  have "unat x < 2 ^ 32" using unsigned_less [of x, where 'a = nat] by simp
  then have "unat x < 2 ^ 64" by (rule less_trans) simp
  then show ?thesis
    by (simp add: unsigned_ucast_eq take_bit_nat_eq_self)
qed

lemma unat_ucast_64_32: "unat (x :: 64 word) < 2 ^ 32 \<Longrightarrow> unat (ucast x :: 32 word) = unat x"
  by (simp add: unsigned_ucast_eq take_bit_nat_eq_self)

text \<open>The size test of meta.c:166 does not wrap: it compares the numbers.\<close>

lemma size_test_nat:
  "((word_of_nat sizeof_ItemBuffer :: 64 word) + ucast (Sz :: ULONG) > ucast (M :: ULONG))
     = (unat M < sizeof_ItemBuffer + unat Sz)"
proof -
  have a: "unat Sz < 2 ^ 32" using unsigned_less [of Sz, where 'a = nat] by simp
  have b: "unat ((16 :: 64 word) + ucast Sz) = 16 + unat Sz"
    using a by (simp add: unat_word_ariths unat_ucast_32_64)
  show ?thesis unfolding sizeof_ItemBuffer_def
    by (simp add: word_less_nat_alt b unat_ucast_32_64)
qed

subsection \<open>Rejected insertions\<close>

text \<open>
  Claim C3. For every call \<open>Add(blob, size)\<close> where \<open>size\<close> plus the size of the
  buffer header exceeds \<open>max_entry_size\<close>, \<open>Add\<close> returns 0 at once: the state after the
  call is the state before it, so nothing was allocated (the allocator's pool of
  answers is untouched) and no field of the cache has changed.
\<close>

theorem MetaCacheAddItem_too_large:
  "unat (ItemSizeMax (MetaCache s)) < sizeof_ItemBuffer + unat Sz \<Longrightarrow>
   MetaCacheAddItem Buf Sz s = Some (0, s)"
  unfolding MetaCacheAddItem_def by (simp only: size_test_nat if_True)

theorem MetaCacheAddItem_too_large_witness:
  "unat (ItemSizeMax (MetaCache demo)) < sizeof_ItemBuffer + unat (4090 :: ULONG) \<and>
   MetaCacheAddItem [] 4090 demo = Some (0, demo)"
proof -
  have h: "unat (ItemSizeMax (MetaCache demo)) < sizeof_ItemBuffer + unat (4090 :: ULONG)"
    by (simp add: demo_def sizeof_ItemBuffer_def)
  show ?thesis using h MetaCacheAddItem_too_large [OF h, of "[]"] by simp
qed

lemma alloc_item_cases:
  "FspAllocNonPaged_Item s = Some (p, s1) \<Longrightarrow>
     (p = 0 \<and> MetaCache s1 = MetaCache s \<and> ItemHeap s1 = ItemHeap s \<and>
      BufferHeap s1 = BufferHeap s \<and> InterruptTime s1 = InterruptTime s) \<or>
     (p \<noteq> 0 \<and> ItemHeap s p = None \<and>
      s1 = s\<lparr>ItemHeap := (ItemHeap s)(p \<mapsto> zero_item), Pool := tl (Pool s)\<rparr>)"
  unfolding FspAllocNonPaged_Item_def by (auto split: list.splits if_splits)

lemma alloc_buffer_cases:
  "FspAlloc_Buffer s = Some (p, s1) \<Longrightarrow>
     (p = 0 \<and> MetaCache s1 = MetaCache s \<and> ItemHeap s1 = ItemHeap s \<and>
      BufferHeap s1 = BufferHeap s \<and> InterruptTime s1 = InterruptTime s) \<or>
     (p \<noteq> 0 \<and> BufferHeap s p = None \<and>
      s1 = s\<lparr>BufferHeap := (BufferHeap s)(p \<mapsto> zero_buffer), Pool := tl (Pool s)\<rparr>)"
  unfolding FspAlloc_Buffer_def by (auto split: list.splits if_splits)

text \<open>An index that the locked section mints is never 0, so the result 0 means that
  the cache had no room, and then the section has changed nothing.\<close>

lemma locked_zero:
  "MetaCacheAddItem_locked p s = Some (0, hc, s') \<Longrightarrow> \<not> hc \<and> s' = s"
  unfolding MetaCacheAddItem_locked_def KeAcquireSpinLock_def KeReleaseSpinLock_def
  by (auto split: Option.bind_splits if_splits prod.splits
           simp: Let_def eq_neg_iff_add_eq_0 store_slot_def)

text \<open>
  Claim C9. Whenever \<open>Add\<close> returns 0 (the blob is too large, an allocation fails, or
  the cache is full), the cache object is unchanged: \<open>count\<close>, the list, the buckets
  and \<open>next_handle\<close> are what they were, and so are the stores of items and buffers.
  A rejected insertion does not consume a handle.
\<close>

theorem MetaCacheAddItem_rejected_unchanged:
  assumes "MetaCacheAddItem Buf Sz s = Some (0, s')"
  shows "MetaCache s' = MetaCache s \<and> ItemHeap s' = ItemHeap s \<and> BufferHeap s' = BufferHeap s"
  using assms unfolding MetaCacheAddItem_def
  apply (simp split: if_splits Option.bind_splits prod.splits)
  apply (auto dest!: alloc_item_cases alloc_buffer_cases locked_zero
              simp: FspFree_Item_def FspFree_Buffer_def split: if_splits)
  done

lemmas eval_defs =
  MetaCacheAddItem_def MetaCacheAddItem_locked_def FspAllocNonPaged_Item_def
  FspAlloc_Buffer_def FspFree_Item_def FspFree_Buffer_def KeAcquireSpinLock_def
  KeReleaseSpinLock_def KeQueryInterruptTime_def HashIndex_of_def load_slot_def
  store_slot_def zero_item_def zero_buffer_def sizeof_ItemBuffer_def
  MetaCacheReferenceItemBuffer_def MetaCacheDereferenceItemBuffer_def
  MetaCacheDereferenceItem_def MetaCacheInvalidateItem_def MetaCacheInvalidateAll_def
  MetaCacheInvalidateExpired_def MetaCacheInvalidateItems_locked_def
  MetaCacheCreate_def

lemma demo_full_add: "MetaCacheAddItem [7] 1 demo_full = Some (0, demo_full\<lparr>Pool := []\<rparr>)"
  by (simp add: demo_full_def demo_def eval_defs)

theorem MetaCacheAddItem_rejected_unchanged_witness:
  "MetaCacheAddItem [7] 1 demo_full = Some (0, demo_full\<lparr>Pool := []\<rparr>) \<and>
   MetaCache (demo_full\<lparr>Pool := []\<rparr>) = MetaCache demo_full \<and>
   ItemHeap (demo_full\<lparr>Pool := []\<rparr>) = ItemHeap demo_full \<and>
   BufferHeap (demo_full\<lparr>Pool := []\<rparr>) = BufferHeap demo_full"
  using demo_full_add MetaCacheAddItem_rejected_unchanged [OF demo_full_add] by simp

subsection \<open>Borrowing without a size\<close>

text \<open>
  Claim C10. \<open>Borrow\<close> accepts a null \<open>PSize\<close>: nothing is written through it, and the
  returned payload pointer and the state after the call (with the incremented
  reference count on a hit), as well as the null result on a miss, are those of the
  call with a \<open>PSize\<close> that is not null. In particular the call with a null \<open>PSize\<close>
  has a defined result whenever the other has.
\<close>

theorem MetaCacheReferenceItemBuffer_null_PSize:
  "MetaCacheReferenceItemBuffer Idx None s =
     map_option (\<lambda>(p, sz, s'). (p, None, s')) (MetaCacheReferenceItemBuffer Idx (Some v) s)"
  unfolding MetaCacheReferenceItemBuffer_def
  by (auto split: Option.bind_split prod.splits)

subsection \<open>Chains\<close>

lemma chain_live: "chain h p xs \<Longrightarrow> x \<in> set xs \<Longrightarrow> x \<noteq> 0 \<and> h x \<noteq> None"
  by (induction xs arbitrary: p) (auto split: option.splits)

lemma chain_upd_other: "a \<notin> set xs \<Longrightarrow> chain (h(a := v)) p xs = chain h p xs"
  by (induction xs arbitrary: p) (auto split: option.splits)

lemma chain_upd_field:
  "h a = Some it \<Longrightarrow> DictNext it' = DictNext it \<Longrightarrow> chain (h(a \<mapsto> it')) p xs = chain h p xs"
  by (induction xs arbitrary: p) (auto split: option.splits)

lemma chain_unique: "chain h p xs \<Longrightarrow> chain h p ys \<Longrightarrow> xs = ys"
proof (induction xs arbitrary: p ys)
  case Nil
  then show ?case by (cases ys) auto
next
  case (Cons x xs)
  then show ?case by (cases ys) (auto split: option.splits)
qed

lemma chain_length_chain: "chain h p xs \<Longrightarrow> chain_length h p = Some (length xs)"
proof (induction xs arbitrary: p)
  case Nil
  then show ?case by (simp add: chain_length.simps)
next
  case (Cons x xs)
  then show ?case by (subst chain_length.simps) (auto split: option.splits)
qed

text \<open>Taking an item out of the middle of a chain.\<close>

lemma chain_cut_head:
  "chain h q (p # zs) \<Longrightarrow> h p = Some it \<Longrightarrow> chain h (DictNext it) zs"
  by auto

lemma chain_cut:
  assumes "chain h q (ys @ p # zs)" "distinct (ys @ p # zs)" "ys \<noteq> []"
    "h p = Some itp" "h (last ys) = Some itl"
  shows "chain (h(last ys \<mapsto> itl\<lparr>DictNext := DictNext itp\<rparr>)) q (ys @ zs)"
  using assms
proof (induction ys arbitrary: q)
  case Nil
  then show ?case by simp
next
  case (Cons y ys)
  show ?case
  proof (cases "ys = []")
    case True
    with Cons.prems obtain ity: "h y = Some itl" "q = y" "y \<noteq> 0" "DictNext itl = p"
      "chain h (DictNext itp) zs" "y \<notin> set zs"
      by (auto split: option.splits)
    have "chain (h(y \<mapsto> itl\<lparr>DictNext := DictNext itp\<rparr>)) (DictNext itp) zs"
      using ity(5,6) chain_upd_other [of y zs h] by blast
    with ity True show ?thesis by (simp del: fun_upd_apply add: fun_upd_same)
  next
    case False
    with Cons.prems obtain ity where ity: "h y = Some ity" "chain h (DictNext ity) (ys @ p # zs)" "q = y" "y \<noteq> 0"
      by (auto split: option.splits)
    from Cons.prems False have ne: "last ys \<noteq> y" by auto
    have "chain (h(last ys \<mapsto> itl\<lparr>DictNext := DictNext itp\<rparr>)) (DictNext ity) (ys @ zs)"
      using Cons.IH [OF ity(2)] Cons.prems False by (auto simp del: fun_upd_apply)
    with ity ne False show ?thesis by (auto simp del: fun_upd_apply simp add: fun_upd_other)
  qed
qed


subsection \<open>The loops over a chain\<close>

lemma load_next: "ItemHeap s x = Some it \<Longrightarrow> load_slot (DictNextSlot x) s = Some (DictNext it)"
  by (simp add: load_slot_def)

lemma unlink_item_absent:
  "chain (ItemHeap s) q xs \<Longrightarrow> p \<notin> set xs \<Longrightarrow> load_slot P s = Some q \<Longrightarrow>
   unlink_item p P s = Some s"
proof (induction xs arbitrary: q P)
  case Nil
  then show ?case by (subst unlink_item.simps) simp
next
  case (Cons x xs)
  then obtain it where it: "ItemHeap s x = Some it" "chain (ItemHeap s) (DictNext it) xs"
    "q = x" "x \<noteq> 0" "x \<noteq> p" "p \<notin> set xs"
    by (auto split: option.splits)
  have "unlink_item p (DictNextSlot x) s = Some s"
    using Cons.IH [OF it(2) it(6) load_next [OF it(1)]] .
  with it Cons.prems(3) show ?case by (subst unlink_item.simps) simp
qed

lemma unlink_item_found:
  "chain (ItemHeap s) q (ys @ p # zs) \<Longrightarrow> p \<notin> set ys \<Longrightarrow> load_slot P s = Some q \<Longrightarrow>
   ItemHeap s p = Some itp \<Longrightarrow>
   unlink_item p P s =
     store_slot (if ys = [] then P else DictNextSlot (last ys)) (DictNext itp) s"
proof (induction ys arbitrary: q P)
  case Nil
  then show ?case by (subst unlink_item.simps) (auto simp: load_next)
next
  case (Cons y ys)
  then obtain it where it: "ItemHeap s y = Some it" "chain (ItemHeap s) (DictNext it) (ys @ p # zs)"
    "q = y" "y \<noteq> 0" "y \<noteq> p" "p \<notin> set ys"
    by (auto split: option.splits)
  have "unlink_item p (DictNextSlot y) s =
          store_slot (if ys = [] then DictNextSlot y else DictNextSlot (last ys)) (DictNext itp) s"
    using Cons.IH [OF it(2) it(6) load_next [OF it(1)] Cons.prems(4)] .
  with it Cons.prems(3) show ?case by (subst unlink_item.simps) simp
qed

lemma invalidate_scan_absent:
  "chain (ItemHeap s) q xs \<Longrightarrow> \<forall>x \<in> set xs. no_index (ItemHeap s) Idx x \<Longrightarrow>
   load_slot P s = Some q \<Longrightarrow> invalidate_scan Idx P s = Some (0, s)"
proof (induction xs arbitrary: q P)
  case Nil
  then show ?case by (subst invalidate_scan.simps) simp
next
  case (Cons x xs)
  then obtain it where it: "ItemHeap s x = Some it" "chain (ItemHeap s) (DictNext it) xs"
    "q = x" "x \<noteq> 0" "ItemIndex it \<noteq> Idx" "\<forall>x \<in> set xs. no_index (ItemHeap s) Idx x"
    by (auto split: option.splits simp: no_index_def)
  have "invalidate_scan Idx (DictNextSlot x) s = Some (0, s)"
    using Cons.IH [OF it(2) it(6) load_next [OF it(1)]] .
  with it Cons.prems(3) show ?case by (subst invalidate_scan.simps) simp
qed

lemma invalidate_scan_found:
  "chain (ItemHeap s) q (ys @ p # zs) \<Longrightarrow> \<forall>x \<in> set ys. no_index (ItemHeap s) Idx x \<Longrightarrow>
   load_slot P s = Some q \<Longrightarrow> ItemHeap s p = Some itp \<Longrightarrow> ItemIndex itp = Idx \<Longrightarrow>
   invalidate_scan Idx P s =
     do {
       s1 \<leftarrow> store_slot (if ys = [] then P else DictNextSlot (last ys)) (DictNext itp) s;
       Some (p, s1\<lparr>MetaCache := (MetaCache s1)
               \<lparr>ItemList := remove1 p (ItemList (MetaCache s1)),
                ItemCount := ItemCount (MetaCache s1) - 1\<rparr>\<rparr>)
     }"
proof (induction ys arbitrary: q P)
  case Nil
  then show ?case by (subst invalidate_scan.simps) auto
next
  case (Cons y ys)
  then obtain it where it: "ItemHeap s y = Some it" "chain (ItemHeap s) (DictNext it) (ys @ p # zs)"
    "q = y" "y \<noteq> 0" "ItemIndex it \<noteq> Idx" "\<forall>x \<in> set ys. no_index (ItemHeap s) Idx x"
    by (auto split: option.splits simp: no_index_def)
  note ih = Cons.IH [OF it(2) it(6) load_next [OF it(1)] Cons.prems(4,5)]
  show ?case
    apply (subst invalidate_scan.simps)
    using it Cons.prems(3) ih by simp
qed

lemma reference_scan_absent:
  "chain (ItemHeap s) q xs \<Longrightarrow> \<forall>x \<in> set xs. no_index (ItemHeap s) Idx x \<Longrightarrow>
   reference_scan Idx q s = Some (0, s)"
proof (induction xs arbitrary: q)
  case Nil
  then show ?case by (subst reference_scan.simps) simp
next
  case (Cons x xs)
  then obtain it where it: "ItemHeap s x = Some it" "chain (ItemHeap s) (DictNext it) xs"
    "q = x" "x \<noteq> 0" "ItemIndex it \<noteq> Idx" "\<forall>x \<in> set xs. no_index (ItemHeap s) Idx x"
    by (auto split: option.splits simp: no_index_def)
  have "reference_scan Idx (DictNext it) s = Some (0, s)"
    using Cons.IH [OF it(2) it(6)] .
  with it show ?case by (subst reference_scan.simps) simp
qed

lemma reference_scan_found:
  "chain (ItemHeap s) q (ys @ p # zs) \<Longrightarrow> \<forall>x \<in> set ys. no_index (ItemHeap s) Idx x \<Longrightarrow>
   ItemHeap s p = Some itp \<Longrightarrow> ItemIndex itp = Idx \<Longrightarrow>
   reference_scan Idx q s =
     Some (p, s\<lparr>ItemHeap := (ItemHeap s)(p \<mapsto> itp\<lparr>RefCount := RefCount itp + 1\<rparr>)\<rparr>)"
proof (induction ys arbitrary: q)
  case Nil
  then show ?case by (subst reference_scan.simps) auto
next
  case (Cons y ys)
  then obtain it where it: "ItemHeap s y = Some it" "chain (ItemHeap s) (DictNext it) (ys @ p # zs)"
    "q = y" "y \<noteq> 0" "ItemIndex it \<noteq> Idx" "\<forall>x \<in> set ys. no_index (ItemHeap s) Idx x"
    by (auto split: option.splits simp: no_index_def)
  note ih = Cons.IH [OF it(2) it(6) Cons.prems(3,4)]
  show ?case
    apply (subst reference_scan.simps)
    using it ih by (simp del: fun_upd_apply)
qed

lemma first_index:
  "(\<forall>x \<in> set xs. no_index h Idx x) \<or>
   (\<exists>ys p zs. xs = ys @ p # zs \<and> \<not> no_index h Idx p \<and> (\<forall>x \<in> set ys. no_index h Idx x))"
  using split_list_first_prop [of xs "\<lambda>x. \<not> no_index h Idx x"] by blast

subsection \<open>The invariant, piece by piece\<close>

lemma HashIndex_of_bucket:
  assumes "ItemBucketCount (MetaCache s) \<noteq> 0"
  shows "\<exists>hi. HashIndex_of Idx s = Some hi \<and>
              unat hi = unat Idx mod unat (ItemBucketCount (MetaCache s)) \<and>
              unat hi < unat (ItemBucketCount (MetaCache s))"
proof -
  let ?n = "ItemBucketCount (MetaCache s)"
  have n: "0 < unat ?n" using assms by (simp add: unat_gt_0)
  have n32: "unat ?n < 2 ^ 32" using unsigned_less [of ?n, where 'a = nat] by simp
  have m: "unat (Idx mod ucast ?n) = unat Idx mod unat ?n"
    by (simp add: unat_mod unat_ucast_32_64)
  have lt: "unat Idx mod unat ?n < unat ?n" using n by simp
  then have "unat (Idx mod ucast ?n) < 2 ^ 32" using m n32 by linarith
  then have "unat (ucast (Idx mod ucast ?n) :: 32 word) = unat Idx mod unat ?n"
    using m by (simp add: unat_ucast_64_32)
  with lt assms show ?thesis by (simp add: HashIndex_of_def)
qed

lemma bucket_ok_chain:
  "bucket_ok n L h i head \<Longrightarrow> chain h head xs \<Longrightarrow>
   distinct xs \<and> set xs = {p \<in> set L. \<exists>it. h p = Some it \<and> unat (ItemIndex it) mod n = i}"
  unfolding bucket_ok_def using chain_unique by blast

text \<open>Changing fields of a live item other than its index and its link, or dropping
  an item that is not on the list, leaves the structure as it is.\<close>

lemma bucket_ok_field:
  assumes "h p = Some it" "DictNext it' = DictNext it" "ItemIndex it' = ItemIndex it"
  shows "bucket_ok n L (h(p \<mapsto> it')) i head = bucket_ok n L h i head"
proof -
  have "\<And>q. (\<exists>x. (h(p \<mapsto> it')) q = Some x \<and> unat (ItemIndex x) mod n = i)
           = (\<exists>x. h q = Some x \<and> unat (ItemIndex x) mod n = i)"
    using assms by auto
  then show ?thesis
    unfolding bucket_ok_def using assms
    by (simp add: chain_upd_field del: fun_upd_apply)
qed

lemma struct_ok_field:
  assumes "h p = Some it" "DictNext it' = DictNext it" "ItemIndex it' = ItemIndex it"
  shows "struct_ok n bk cnt L (h(p \<mapsto> it')) = struct_ok n bk cnt L h"
  unfolding struct_ok_def using assms bucket_ok_field [of h p it it' "unat n" L]
  by (auto simp del: fun_upd_apply simp add: fun_upd_apply)

lemma bucket_ok_free:
  assumes "bucket_ok n L h i head" "p \<notin> set L"
  shows "bucket_ok n L (h(p := None)) i head"
proof -
  from assms(1) obtain xs where xs: "chain h head xs" "distinct xs"
    "set xs = {p \<in> set L. \<exists>it. h p = Some it \<and> unat (ItemIndex it) mod n = i}"
    unfolding bucket_ok_def by blast
  from xs(3) assms(2) have "p \<notin> set xs" by blast
  then have c: "chain (h(p := None)) head xs"
    using xs(1) chain_upd_other [of p xs h None] by blast
  have "set xs = {q \<in> set L. \<exists>it. (h(p := None)) q = Some it \<and> unat (ItemIndex it) mod n = i}"
    using xs(3) assms(2) by auto
  with c xs(2) show ?thesis
    unfolding bucket_ok_def by blast
qed

lemma live_not_null: "struct_ok n bk cnt L h \<Longrightarrow> h p = Some it \<Longrightarrow> p \<noteq> 0"
  by (cases "p = 0") (auto simp: struct_ok_def)

lemma listed_live: "struct_ok n bk cnt L h \<Longrightarrow> p \<in> set L \<Longrightarrow> \<exists>it. h p = Some it"
  by (auto simp: struct_ok_def)

lemma struct_ok_free:
  assumes "struct_ok n bk cnt L h" "p \<notin> set L"
  shows "struct_ok n bk cnt L (h(p := None))"
proof -
  have "\<forall>q \<in> set L. (h(p := None)) q \<noteq> None"
    using assms by (auto simp: struct_ok_def)
  then show ?thesis
    using assms bucket_ok_free [OF _ assms(2)] unfolding struct_ok_def
    by (simp del: fun_upd_apply add: fun_upd_apply)
qed

text \<open>Two live items have different buffers.\<close>

lemma heap_ok_buffer_inj:
  "heap_ok X L h bh B \<Longrightarrow> h p = Some it \<Longrightarrow> h q = Some it' \<Longrightarrow>
   ItemBuffer it = ItemBuffer it' \<Longrightarrow> p = q"
  unfolding heap_ok_def by (metis option.inject)

text \<open>Releasing the reference that an operation holds on an item.\<close>

lemma deref_result:
  "ItemHeap s p = Some it \<Longrightarrow> BufferHeap s (ItemBuffer it) \<noteq> None \<Longrightarrow>
   MetaCacheDereferenceItem p s =
     Some (if RefCount it - 1 = 0
           then s\<lparr>ItemHeap := (ItemHeap s)(p := None),
                  BufferHeap := (BufferHeap s)(ItemBuffer it := None)\<rparr>
           else s\<lparr>ItemHeap := (ItemHeap s)(p \<mapsto> it\<lparr>RefCount := RefCount it - 1\<rparr>)\<rparr>)"
  by (auto simp: MetaCacheDereferenceItem_def FspFree_Buffer_def FspFree_Item_def Let_def)

lemma deref_ok:
  assumes st: "struct_ok n bk cnt L h" and hi: "heap_ok p L h bh B" and it: "h p = Some it"
  shows "(RefCount it - 1 = 0 \<longrightarrow>
            holders L B p it = 0 \<and> struct_ok n bk cnt L (h(p := None)) \<and>
            heap_ok 0 L (h(p := None)) (bh(ItemBuffer it := None)) B) \<and>
         (RefCount it - 1 \<noteq> 0 \<longrightarrow>
            holders L B p it \<noteq> 0 \<and>
            struct_ok n bk cnt L (h(p \<mapsto> it\<lparr>RefCount := RefCount it - 1\<rparr>)) \<and>
            heap_ok 0 L (h(p \<mapsto> it\<lparr>RefCount := RefCount it - 1\<rparr>)) bh B)"
proof -
  from hi it obtain b where b: "bh (ItemBuffer it) = Some b" "Item b = p"
    and rc: "unat (RefCount it) = holders L B p it + 1" and nz: "RefCount it \<noteq> 0"
    unfolding heap_ok_def by fastforce
  have dec: "unat (RefCount it - 1) = holders L B p it"
    using rc nz by (simp add: unat_minus_one)
  have p0: "p \<noteq> 0" using st it by (rule live_not_null)
  show ?thesis
  proof (cases "holders L B p it = 0")
    case True
    then have z: "RefCount it - 1 = 0" using dec by (simp add: unat_eq_0)
    from True have notin: "p \<notin> set L"
      and nob: "count_list B (ItemBuffer it + sizeof_ItemBuffer) = 0"
      by (auto simp: holders_def split: if_splits)
    let ?h = "h(p := None)" and ?bh = "bh(ItemBuffer it := None)"
    have s1: "struct_ok n bk cnt L ?h"
      using struct_ok_free [OF st notin] .
    have h1: "heap_ok 0 L ?h ?bh B"
      unfolding heap_ok_def
    proof (intro conjI allI impI ballI)
      fix q itq assume q: "?h q = Some itq"
      then have qp: "q \<noteq> p" and q': "h q = Some itq" by (auto split: if_splits)
      from hi q' obtain bq where bq: "bh (ItemBuffer itq) = Some bq" "Item bq = q"
        "unat (Size bq) = length (Buffer bq)"
        and rq: "unat (RefCount itq) = holders L B q itq + (if q = p then 1 else 0)"
        and nq: "RefCount itq \<noteq> 0"
        unfolding heap_ok_def by fastforce
      have "ItemBuffer itq \<noteq> ItemBuffer it"
        using heap_ok_buffer_inj [OF hi q' it] qp by blast
      with bq show "\<exists>b. ?bh (ItemBuffer itq) = Some b \<and> Item b = q \<and>
               unat (Size b) = length (Buffer b)" by simp
      have "q \<noteq> 0" using st q' by (rule live_not_null)
      then show "unat (RefCount itq) = holders L B q itq + (if q = 0 then 1 else 0)"
        using rq qp by simp
      show "RefCount itq \<noteq> 0" by (rule nq)
    next
      fix q bq assume q: "?bh q = Some bq"
      then have qb: "q \<noteq> ItemBuffer it" and q': "bh q = Some bq" by (auto split: if_splits)
      from hi q' obtain itq where itq: "h (Item bq) = Some itq" "ItemBuffer itq = q"
        unfolding heap_ok_def by fastforce
      with qb it have "Item bq \<noteq> p" by auto
      with itq show "\<exists>it'. ?h (Item bq) = Some it' \<and> ItemBuffer it' = q" by simp
    next
      fix x assume x: "x \<in> set B"
      with hi have v: "sizeof_ItemBuffer \<le> x" "bh (x - sizeof_ItemBuffer) \<noteq> None"
        unfolding heap_ok_def by auto
      have "x \<noteq> ItemBuffer it + sizeof_ItemBuffer"
        using x nob by (auto simp: count_list_0_iff)
      with v have "x - sizeof_ItemBuffer \<noteq> ItemBuffer it" by auto
      with v show "sizeof_ItemBuffer \<le> x" "?bh (x - sizeof_ItemBuffer) \<noteq> None"
        by auto
    qed
    from s1 h1 True z show ?thesis by simp
  next
    case False
    then have z: "RefCount it - 1 \<noteq> 0" using dec by (auto simp: unat_eq_0)
    let ?it' = "it\<lparr>RefCount := RefCount it - 1\<rparr>"
    have s1: "struct_ok n bk cnt L (h(p \<mapsto> ?it'))"
      using st it struct_ok_field [of h p it ?it' n bk cnt L] by simp
    have h1: "heap_ok 0 L (h(p \<mapsto> ?it')) bh B"
      unfolding heap_ok_def
    proof (intro conjI allI impI ballI)
      fix q itq assume q: "(h(p \<mapsto> ?it')) q = Some itq"
      show "\<exists>b. bh (ItemBuffer itq) = Some b \<and> Item b = q \<and> unat (Size b) = length (Buffer b)"
        using q hi it unfolding heap_ok_def by (cases "q = p") auto
      have q0: "q \<noteq> 0" using q p0 live_not_null [OF st] by (cases "q = p") auto
      show "unat (RefCount itq) = holders L B q itq + (if q = 0 then 1 else 0)"
      proof (cases "q = p")
        case True
        with q dec q0 show ?thesis by (auto simp: holders_def)
      next
        case False
        with q hi q0 show ?thesis unfolding heap_ok_def by auto
      qed
      show "RefCount itq \<noteq> 0"
        using q hi z unfolding heap_ok_def by (cases "q = p") auto
    next
      fix q bq assume q: "bh q = Some bq"
      with hi obtain itq where itq: "h (Item bq) = Some itq" "ItemBuffer itq = q"
        unfolding heap_ok_def by fastforce
      with it show "\<exists>it'. (h(p \<mapsto> ?it')) (Item bq) = Some it' \<and> ItemBuffer it' = q"
        by (cases "Item bq = p") auto
    next
      fix x assume x: "x \<in> set B"
      with hi show "sizeof_ItemBuffer \<le> x" "bh (x - sizeof_ItemBuffer) \<noteq> None"
        unfolding heap_ok_def by auto
    qed
    from s1 h1 False z show ?thesis by simp
  qed
qed

text \<open>Unlinking an item from its chain and from the list.\<close>

lemma unlink_ok:
  assumes st: "struct_ok n bk cnt L h" and hi: "heap_ok 0 L h bh B"
    and it: "h p = Some itp" and pL: "p \<in> set L"
    and i: "i = unat (ItemIndex itp) mod unat n"
    and ch: "chain h (bk ! i) (ys @ p # zs)"
    and h': "ys = [] \<and> h' = h \<and> bk' = bk[i := DictNext itp] \<or>
             ys \<noteq> [] \<and> (\<exists>itl. h (last ys) = Some itl \<and>
                 h' = h(last ys \<mapsto> itl\<lparr>DictNext := DictNext itp\<rparr>)) \<and> bk' = bk"
  shows "struct_ok n bk' (cnt - 1) (remove1 p L) h' \<and> heap_ok p (remove1 p L) h' bh B \<and>
         h' p = Some itp \<and>
         (\<forall>q x'. h' q = Some x' \<longrightarrow> (\<exists>x. h q = Some x \<and> ItemIndex x' = ItemIndex x \<and>
           ItemBuffer x' = ItemBuffer x \<and> RefCount x' = RefCount x \<and>
           ExpirationTime x' = ExpirationTime x))"
proof -
  let ?L = "remove1 p L"
  from st have n0: "n \<noteq> 0" and len: "length bk = unat n" and cnt: "unat cnt = length L"
    and dL: "distinct L" and h0: "h 0 = None" and live: "\<forall>q \<in> set L. h q \<noteq> None"
    and bks: "\<forall>j < length bk. bucket_ok (unat n) L h j (bk ! j)"
    unfolding struct_ok_def by auto
  have ilt: "i < length bk" using i n0 len by (simp add: unat_gt_0)
  from bucket_ok_chain [OF bks [rule_format, OF ilt] ch]
  have dxs: "distinct (ys @ p # zs)"
    and sxs: "set (ys @ p # zs) = {q \<in> set L. \<exists>it. h q = Some it \<and> unat (ItemIndex it) mod unat n = i}"
    by auto
  have setL: "set ?L = set L - {p}" using dL by simp
  have cnt0: "cnt \<noteq> 0" using cnt pL by (auto simp: unat_eq_0 dest: length_pos_if_in_set)
  have cnt': "unat (cnt - 1) = length ?L"
    using cnt cnt0 pL by (simp add: unat_minus_one length_remove1)
  \<comment> \<open>what the new heap keeps\<close>
  have same: "\<forall>q. (h' q = None \<longleftrightarrow> h q = None) \<and>
      (\<forall>x. h q = Some x \<longrightarrow> (\<exists>x'. h' q = Some x' \<and> ItemIndex x' = ItemIndex x \<and>
           ItemBuffer x' = ItemBuffer x \<and> RefCount x' = RefCount x \<and>
           ExpirationTime x' = ExpirationTime x))"
    using h' by (auto simp: fun_upd_apply split: if_splits)
  have same': "\<forall>q x'. h' q = Some x' \<longrightarrow> (\<exists>x. h q = Some x \<and> ItemIndex x' = ItemIndex x \<and>
           ItemBuffer x' = ItemBuffer x \<and> RefCount x' = RefCount x \<and>
           ExpirationTime x' = ExpirationTime x)"
    using same by (metis option.exhaust option.inject)
  have idx: "\<And>q j. (\<exists>x. h' q = Some x \<and> unat (ItemIndex x) mod unat n = j) =
                    (\<exists>x. h q = Some x \<and> unat (ItemIndex x) mod unat n = j)"
    using same same' by metis
  have lastp: "ys \<noteq> [] \<Longrightarrow> last ys \<noteq> p" using dxs by auto
  have p': "h' p = Some itp" using h' it lastp by (auto simp: fun_upd_apply)
  \<comment> \<open>the chain of the item's bucket\<close>
  have chi: "chain h' (bk' ! i) (ys @ zs)"
  proof (cases "ys = []")
    case True
    with h' ch it ilt show ?thesis by auto
  next
    case False
    with h' obtain itl where itl: "h (last ys) = Some itl"
      "h' = h(last ys \<mapsto> itl\<lparr>DictNext := DictNext itp\<rparr>)" "bk' = bk" by auto
    show ?thesis unfolding itl(2,3) by (rule chain_cut [OF ch dxs False it itl(1)])
  qed
  have bi: "bucket_ok (unat n) ?L h' i (bk' ! i)"
    unfolding bucket_ok_def idx
  proof (intro exI conjI)
    show "chain h' (bk' ! i) (ys @ zs)" by (rule chi)
    show "distinct (ys @ zs)" using dxs by auto
    show "set (ys @ zs) = {q \<in> set ?L. \<exists>x. h q = Some x \<and> unat (ItemIndex x) mod unat n = i}"
      using sxs dxs setL by auto
  qed
  \<comment> \<open>the other chains\<close>
  have bj: "bucket_ok (unat n) ?L h' j (bk' ! j)" if j: "j < length bk" "j \<noteq> i" for j
  proof -
    from bks j obtain xs where xs: "chain h (bk ! j) xs" "distinct xs"
      "set xs = {q \<in> set L. \<exists>it. h q = Some it \<and> unat (ItemIndex it) mod unat n = j}"
      unfolding bucket_ok_def by blast
    have disj: "set xs \<inter> set (ys @ p # zs) = {}" using xs(3) sxs j(2) by auto
    have bkj: "bk' ! j = bk ! j" using h' j by auto
    have c: "chain h' (bk ! j) xs"
    proof (cases "ys = []")
      case True
      with h' xs(1) show ?thesis by auto
    next
      case False
      with h' obtain itl where itl: "h' = h(last ys \<mapsto> itl\<lparr>DictNext := DictNext itp\<rparr>)" by auto
      have "last ys \<notin> set xs" using disj False by auto
      then show ?thesis unfolding itl using xs(1)
        chain_upd_other [of "last ys" xs h "Some (itl\<lparr>DictNext := DictNext itp\<rparr>)"] by blast
    qed
    have "p \<notin> set xs" using disj by auto
    then have "set xs = {q \<in> set ?L. \<exists>x. h q = Some x \<and> unat (ItemIndex x) mod unat n = j}"
      using xs(3) setL by auto
    with c xs(2) show ?thesis unfolding bucket_ok_def idx bkj by blast
  qed
  have lbk: "length bk' = length bk" using h' by auto
  have "struct_ok n bk' (cnt - 1) ?L h'"
    unfolding struct_ok_def
  proof (intro conjI)
    show "n \<noteq> 0" by (rule n0)
    show "length bk' = unat n" using lbk len by simp
    show "unat (cnt - 1) = length ?L" by (rule cnt')
    show "distinct ?L" using dL by simp
    show "h' 0 = None" using same h0 by simp
    show "\<forall>q \<in> set ?L. h' q \<noteq> None" using same live setL by auto
    show "\<forall>j < length bk'. bucket_ok (unat n) ?L h' j (bk' ! j)"
      using bi bj lbk by (metis)
  qed
  moreover have "heap_ok p ?L h' bh B"
    unfolding heap_ok_def
  proof (intro conjI allI impI ballI)
    fix q x' assume q: "h' q = Some x'"
    with same' obtain x where x: "h q = Some x" "ItemIndex x' = ItemIndex x"
           "ItemBuffer x' = ItemBuffer x" "RefCount x' = RefCount x" by blast
    from hi x(1) have a: "\<exists>b. bh (ItemBuffer x) = Some b \<and> Item b = q \<and> unat (Size b) = length (Buffer b)"
      and r: "unat (RefCount x) = holders L B q x + (if q = 0 then 1 else 0)"
      and nz: "RefCount x \<noteq> 0"
      unfolding heap_ok_def by auto
    show "\<exists>b. bh (ItemBuffer x') = Some b \<and> Item b = q \<and> unat (Size b) = length (Buffer b)"
      using a x by simp
    have q0: "q \<noteq> 0" using x(1) st by (rule live_not_null [rotated])
    show "unat (RefCount x') = holders ?L B q x' + (if q = p then 1 else 0)"
      using r x q0 pL setL by (auto simp: holders_def)
    show "RefCount x' \<noteq> 0" using nz x by simp
  next
    fix q b assume "bh q = Some b"
    with hi obtain x where "h (Item b) = Some x" "ItemBuffer x = q"
      unfolding heap_ok_def by blast
    with same show "\<exists>it. h' (Item b) = Some it \<and> ItemBuffer it = q" by metis
  next
    fix x assume "x \<in> set B"
    with hi show "sizeof_ItemBuffer \<le> x" "bh (x - sizeof_ItemBuffer) \<noteq> None"
      unfolding heap_ok_def by auto
  qed
  ultimately show ?thesis using p' same' by simp
qed

lemma shrinks_refl: "shrinks s s"
proof -
  have "ItemList (MetaCache s) = filter (\<lambda>_. True) (ItemList (MetaCache s))" by simp
  then show ?thesis unfolding shrinks_def by blast
qed

lemma shrinks_trans: "shrinks s s' \<Longrightarrow> shrinks s' s'' \<Longrightarrow> shrinks s s''"
proof -
  assume a: "shrinks s s'" and b: "shrinks s' s''"
  from a obtain P where P: "ItemList (MetaCache s') = filter P (ItemList (MetaCache s))"
    unfolding shrinks_def by blast
  from b obtain Q where Q: "ItemList (MetaCache s'') = filter Q (ItemList (MetaCache s'))"
    unfolding shrinks_def by blast
  have l: "\<exists>R. ItemList (MetaCache s'') = filter R (ItemList (MetaCache s))"
    using P Q by (metis filter_filter)
  have i: "\<forall>q it'. ItemHeap s'' q = Some it' \<longrightarrow>
         (\<exists>it. ItemHeap s q = Some it \<and> ItemBuffer it' = ItemBuffer it \<and>
               ExpirationTime it' = ExpirationTime it \<and> ItemIndex it' = ItemIndex it)"
  proof (intro allI impI)
    fix q it'' assume "ItemHeap s'' q = Some it''"
    with b obtain it' where "ItemHeap s' q = Some it'" "ItemBuffer it'' = ItemBuffer it'"
      "ExpirationTime it'' = ExpirationTime it'" "ItemIndex it'' = ItemIndex it'"
      unfolding shrinks_def by blast
    moreover with a obtain it where "ItemHeap s q = Some it" "ItemBuffer it' = ItemBuffer it"
      "ExpirationTime it' = ExpirationTime it" "ItemIndex it' = ItemIndex it"
      unfolding shrinks_def by blast
    ultimately show "\<exists>it. ItemHeap s q = Some it \<and> ItemBuffer it'' = ItemBuffer it \<and>
               ExpirationTime it'' = ExpirationTime it \<and> ItemIndex it'' = ItemIndex it" by simp
  qed
  from a b l i show ?thesis unfolding shrinks_def by simp
qed

text \<open>\<open>MetaCacheDereferenceItem\<close> on the item that an operation holds.\<close>

lemma deref_wf:
  assumes st: "struct_wf s" and hi: "heap_inv p (s, B)" and it: "ItemHeap s p = Some it"
  shows "\<exists>s'. MetaCacheDereferenceItem p s = Some s' \<and> struct_wf s' \<and> heap_inv 0 (s', B) \<and>
              shrinks s s' \<and> MetaCache s' = MetaCache s"
proof -
  from hi it have b: "BufferHeap s (ItemBuffer it) \<noteq> None"
    unfolding heap_inv_def heap_ok_def by fastforce
  note ok = deref_ok [OF st [unfolded struct_wf_def] hi [unfolded heap_inv_def fst_conv snd_conv] it]
  show ?thesis
  proof (cases "RefCount it - 1 = 0")
    case True
    let ?s' = "s\<lparr>ItemHeap := (ItemHeap s)(p := None),
                  BufferHeap := (BufferHeap s)(ItemBuffer it := None)\<rparr>"
    have "MetaCacheDereferenceItem p s = Some ?s'" using deref_result [OF it b] True by simp
    moreover have "struct_wf ?s'" using ok True by (simp add: struct_wf_def)
    moreover have "heap_inv 0 (?s', B)" using ok True by (simp add: heap_inv_def)
    moreover have "shrinks s ?s'" 
      using shrinks_refl [of s] unfolding shrinks_def by (auto split: if_splits)
    ultimately show ?thesis by simp
  next
    case False
    let ?s' = "s\<lparr>ItemHeap := (ItemHeap s)(p \<mapsto> it\<lparr>RefCount := RefCount it - 1\<rparr>)\<rparr>"
    have "MetaCacheDereferenceItem p s = Some ?s'" using deref_result [OF it b] False by simp
    moreover have "struct_wf ?s'" using ok False by (simp add: struct_wf_def)
    moreover have "heap_inv 0 (?s', B)" using ok False by (simp add: heap_inv_def)
    moreover have "shrinks s ?s'" 
      using shrinks_refl [of s] it unfolding shrinks_def by (auto split: if_splits)
    ultimately show ?thesis by simp
  qed
qed


lemma store_bucket:
  "unat hi < length (ItemBuckets (MetaCache s)) \<Longrightarrow>
   store_slot (BucketSlot hi) v s =
     Some (s\<lparr>MetaCache := (MetaCache s)\<lparr>ItemBuckets := (ItemBuckets (MetaCache s))[unat hi := v]\<rparr>\<rparr>)"
  by (simp add: store_slot_def)

lemma store_next:
  "ItemHeap s q = Some it \<Longrightarrow>
   store_slot (DictNextSlot q) v s = Some (s\<lparr>ItemHeap := (ItemHeap s)(q \<mapsto> it\<lparr>DictNext := v\<rparr>)\<rparr>)"
  by (simp add: store_slot_def)

text \<open>The locked part of a removal: the item leaves its chain and the list.\<close>

lemma unlink_wf:
  assumes st: "struct_wf s" and hi: "heap_inv 0 (s, B)"
    and it: "ItemHeap s p = Some itp" and pL: "p \<in> set (ItemList (MetaCache s))"
    and hx: "unat hi = unat (ItemIndex itp) mod unat (ItemBucketCount (MetaCache s))"
    and ch: "chain (ItemHeap s) (ItemBuckets (MetaCache s) ! unat hi) (ys @ p # zs)"
  shows "\<exists>s1. store_slot (if ys = [] then BucketSlot hi else DictNextSlot (last ys)) (DictNext itp) s
                = Some s1 \<and>
          (let s2 = s1\<lparr>MetaCache := (MetaCache s1)
                         \<lparr>ItemList := remove1 p (ItemList (MetaCache s1)),
                          ItemCount := ItemCount (MetaCache s1) - 1\<rparr>\<rparr>
           in struct_wf s2 \<and> heap_inv p (s2, B) \<and> ItemHeap s2 p = Some itp \<and> shrinks s s2 \<and>
              ItemList (MetaCache s2) = remove1 p (ItemList (MetaCache s)) \<and>
              SpinLock (MetaCache s2) = SpinLock (MetaCache s))"
proof -
  let ?c = "MetaCache s"
  let ?n = "ItemBucketCount ?c" and ?bk = "ItemBuckets ?c" and ?L = "ItemList ?c"
  let ?h = "ItemHeap s"
  note st' = st [unfolded struct_wf_def] and hi' = hi [unfolded heap_inv_def fst_conv snd_conv]
  have ilt: "unat hi < length ?bk" using st' hx by (auto simp: struct_ok_def unat_gt_0)
  have dL: "distinct ?L" using st' by (simp add: struct_ok_def)
  have flt: "remove1 p ?L = filter (\<lambda>x. x \<noteq> p) ?L"
    using dL by (simp add: distinct_remove1_removeAll removeAll_filter_not_eq) metis
  show ?thesis
  proof (cases "ys = []")
    case True
    let ?bk' = "?bk[unat hi := DictNext itp]"
    note ok = unlink_ok [OF st' hi' it pL hx ch, of ?h ?bk'] 
    let ?s1 = "s\<lparr>MetaCache := ?c\<lparr>ItemBuckets := ?bk'\<rparr>\<rparr>"
    have "store_slot (if ys = [] then BucketSlot hi else DictNextSlot (last ys)) (DictNext itp) s
            = Some ?s1" using True store_bucket [OF ilt] by simp
    moreover have "shrinks s (?s1\<lparr>MetaCache := (MetaCache ?s1)
                         \<lparr>ItemList := remove1 p (ItemList (MetaCache ?s1)),
                          ItemCount := ItemCount (MetaCache ?s1) - 1\<rparr>\<rparr>)"
      unfolding shrinks_def using flt by auto
    ultimately show ?thesis using ok True
      by (simp add: struct_wf_def heap_inv_def Let_def)
  next
    case False
    then have "last ys \<in> set (ys @ p # zs)" by simp
    from chain_live [OF ch this] obtain itl where itl: "?h (last ys) = Some itl" by auto
    let ?h' = "?h(last ys \<mapsto> itl\<lparr>DictNext := DictNext itp\<rparr>)"
    have ok: "struct_ok ?n ?bk (ItemCount ?c - 1) (remove1 p ?L) ?h' \<and>
       heap_ok p (remove1 p ?L) ?h' (BufferHeap s) B \<and> ?h' p = Some itp \<and>
       (\<forall>q x'. ?h' q = Some x' \<longrightarrow> (\<exists>x. ?h q = Some x \<and> ItemIndex x' = ItemIndex x \<and>
           ItemBuffer x' = ItemBuffer x \<and> RefCount x' = RefCount x \<and>
           ExpirationTime x' = ExpirationTime x))"
      using unlink_ok [OF st' hi' it pL hx ch, of ?h' ?bk] False itl by blast
    let ?s1 = "s\<lparr>ItemHeap := ?h'\<rparr>"
    have "store_slot (if ys = [] then BucketSlot hi else DictNextSlot (last ys)) (DictNext itp) s
            = Some ?s1" using False store_next [OF itl] by simp
    moreover have "shrinks s (?s1\<lparr>MetaCache := (MetaCache ?s1)
                         \<lparr>ItemList := remove1 p (ItemList (MetaCache ?s1)),
                          ItemCount := ItemCount (MetaCache ?s1) - 1\<rparr>\<rparr>)"
      unfolding shrinks_def using flt ok by (simp del: fun_upd_apply) blast
    ultimately show ?thesis using ok 
      by (simp add: struct_wf_def heap_inv_def Let_def del: fun_upd_apply)
  qed
qed

subsection \<open>Removal\<close>

lemma struct_wf_lock [simp]:
  "struct_wf (s\<lparr>MetaCache := (MetaCache s)\<lparr>SpinLock := l\<rparr>\<rparr>) = struct_wf s"
  by (simp add: struct_wf_def)

lemma heap_inv_lock [simp]:
  "heap_inv X (s\<lparr>MetaCache := (MetaCache s)\<lparr>SpinLock := l\<rparr>\<rparr>, B) = heap_inv X (s, B)"
  by (simp add: heap_inv_def)

lemma shrinks_lock [simp]:
  "shrinks (s\<lparr>MetaCache := (MetaCache s)\<lparr>SpinLock := l\<rparr>\<rparr>) s' = shrinks s s'"
  "shrinks s (s'\<lparr>MetaCache := (MetaCache s')\<lparr>SpinLock := l\<rparr>\<rparr>) = shrinks s s'"
  by (simp_all add: shrinks_def)

lemma unlock_id:
  "\<not> SpinLock (MetaCache s) \<Longrightarrow> s\<lparr>MetaCache := (MetaCache s)\<lparr>SpinLock := False\<rparr>\<rparr> = s"
  by simp

lemma acquire: "\<not> SpinLock (MetaCache s) \<Longrightarrow>
  KeAcquireSpinLock s = Some (s\<lparr>MetaCache := (MetaCache s)\<lparr>SpinLock := True\<rparr>\<rparr>)"
  by (simp add: KeAcquireSpinLock_def)

lemma release: "SpinLock (MetaCache s) \<Longrightarrow>
  KeReleaseSpinLock s = Some (s\<lparr>MetaCache := (MetaCache s)\<lparr>SpinLock := False\<rparr>\<rparr>)"
  by (simp add: KeReleaseSpinLock_def)

lemma load_bucket:
  "unat hi < length (ItemBuckets (MetaCache s)) \<Longrightarrow>
   load_slot (BucketSlot hi) s = Some (ItemBuckets (MetaCache s) ! unat hi)"
  by (simp add: load_slot_def)

text \<open>The locked part of a removal followed by the release of the lock and of the
  reference of the cache.\<close>

lemma remove_wf:
  assumes lk: "SpinLock (MetaCache s)" and st: "struct_wf s" and hi: "heap_inv 0 (s, B)"
    and it: "ItemHeap s p = Some itp" and pL: "p \<in> set (ItemList (MetaCache s))"
    and hx: "unat hi = unat (ItemIndex itp) mod unat (ItemBucketCount (MetaCache s))"
    and ch: "chain (ItemHeap s) (ItemBuckets (MetaCache s) ! unat hi) (ys @ p # zs)"
  shows "\<exists>s1 s3 s'.
          store_slot (if ys = [] then BucketSlot hi else DictNextSlot (last ys)) (DictNext itp) s
            = Some s1 \<and>
          KeReleaseSpinLock (s1\<lparr>MetaCache := (MetaCache s1)
                         \<lparr>ItemList := remove1 p (ItemList (MetaCache s1)),
                          ItemCount := ItemCount (MetaCache s1) - 1\<rparr>\<rparr>) = Some s3 \<and>
          MetaCacheDereferenceItem p s3 = Some s' \<and>
          consistent (s', B) \<and> shrinks s s' \<and>
          ItemList (MetaCache s') = remove1 p (ItemList (MetaCache s))"
proof -
  from unlink_wf [OF st hi it pL hx ch] obtain s1 where
    s1: "store_slot (if ys = [] then BucketSlot hi else DictNextSlot (last ys)) (DictNext itp) s
            = Some s1"
    and s2: "let s2 = s1\<lparr>MetaCache := (MetaCache s1)
                         \<lparr>ItemList := remove1 p (ItemList (MetaCache s1)),
                          ItemCount := ItemCount (MetaCache s1) - 1\<rparr>\<rparr>
           in struct_wf s2 \<and> heap_inv p (s2, B) \<and> ItemHeap s2 p = Some itp \<and> shrinks s s2 \<and>
              ItemList (MetaCache s2) = remove1 p (ItemList (MetaCache s)) \<and>
              SpinLock (MetaCache s2) = SpinLock (MetaCache s)" by blast
  define s2 where "s2 = s1\<lparr>MetaCache := (MetaCache s1)
                         \<lparr>ItemList := remove1 p (ItemList (MetaCache s1)),
                          ItemCount := ItemCount (MetaCache s1) - 1\<rparr>\<rparr>"
  from s2 have f: "struct_wf s2" "heap_inv p (s2, B)" "ItemHeap s2 p = Some itp" "shrinks s s2"
    "ItemList (MetaCache s2) = remove1 p (ItemList (MetaCache s))" "SpinLock (MetaCache s2)"
    using lk unfolding s2_def Let_def by auto
  define s3 where "s3 = s2\<lparr>MetaCache := (MetaCache s2)\<lparr>SpinLock := False\<rparr>\<rparr>"
  have r: "KeReleaseSpinLock s2 = Some s3" unfolding s3_def by (rule release [OF f(6)])
  have g: "struct_wf s3" "heap_inv p (s3, B)" "ItemHeap s3 p = Some itp" "shrinks s s3"
    "ItemList (MetaCache s3) = remove1 p (ItemList (MetaCache s))" "\<not> SpinLock (MetaCache s3)"
    using f unfolding s3_def by simp_all
  from deref_wf [OF g(1,2,3)] obtain s' where
    s': "MetaCacheDereferenceItem p s3 = Some s'" "struct_wf s'" "heap_inv 0 (s', B)"
      "shrinks s3 s'" "MetaCache s' = MetaCache s3" by blast
  have "consistent (s', B)" using s' g(6) by (simp add: consistent_def)
  moreover have "shrinks s s'" using shrinks_trans [OF g(4) s'(4)] .
  ultimately show ?thesis using s1 r s' g(5) unfolding s2_def by auto
qed

lemma invalidate_wf:
  assumes "consistent (s, B)"
  shows "\<exists>s'. MetaCacheInvalidateItem Idx s = Some s' \<and> consistent (s', B) \<and> shrinks s s'"
proof -
  from assms have lk: "\<not> SpinLock (MetaCache s)" and st: "struct_wf s" and hi: "heap_inv 0 (s, B)"
    by (simp_all add: consistent_def)
  define sl where "sl = s\<lparr>MetaCache := (MetaCache s)\<lparr>SpinLock := True\<rparr>\<rparr>"
  have acq: "KeAcquireSpinLock s = Some sl" unfolding sl_def by (rule acquire [OF lk])
  have sl: "SpinLock (MetaCache sl)" "struct_wf sl" "heap_inv 0 (sl, B)" "shrinks s sl"
    and rel: "KeReleaseSpinLock sl = Some s"
    using lk st hi shrinks_refl [of s] unfolding sl_def by (simp_all add: release)
  note st' = sl(2) [unfolded struct_wf_def struct_ok_def]
  from st' have n0: "ItemBucketCount (MetaCache sl) \<noteq> 0" by simp
  from HashIndex_of_bucket [OF n0, of Idx] obtain hx where
    hx: "HashIndex_of Idx sl = Some hx"
        "unat hx = unat Idx mod unat (ItemBucketCount (MetaCache sl))"
        "unat hx < unat (ItemBucketCount (MetaCache sl))" by blast
  have ilt: "unat hx < length (ItemBuckets (MetaCache sl))" using hx(3) st' by simp
  note ld = load_bucket [OF ilt]
  from st' ilt obtain xs where xs: "chain (ItemHeap sl) (ItemBuckets (MetaCache sl) ! unat hx) xs"
    unfolding bucket_ok_def by blast
  from bucket_ok_chain [OF _ xs] st' ilt 
  have sub: "set xs \<subseteq> set (ItemList (MetaCache sl))" by blast
  from first_index [of xs "ItemHeap sl" Idx] show ?thesis
  proof
    assume "\<forall>x\<in>set xs. no_index (ItemHeap sl) Idx x"
    from invalidate_scan_absent [OF xs this ld]
    have "MetaCacheInvalidateItem Idx s = Some s"
      by (simp add: MetaCacheInvalidateItem_def acq hx rel)
    with assms shrinks_refl show ?thesis by simp
  next
    assume "\<exists>ys p zs. xs = ys @ p # zs \<and> \<not> no_index (ItemHeap sl) Idx p \<and>
              (\<forall>x\<in>set ys. no_index (ItemHeap sl) Idx x)"
    then obtain ys p zs itp where f: "xs = ys @ p # zs" "\<forall>x\<in>set ys. no_index (ItemHeap sl) Idx x"
      "ItemHeap sl p = Some itp" "ItemIndex itp = Idx"
      by (auto simp: no_index_def split: option.splits)
    have pL: "p \<in> set (ItemList (MetaCache sl))" using sub f(1) by auto
    have p0: "p \<noteq> 0" using chain_live [OF xs, of p] f(1) by simp
    have hx': "unat hx = unat (ItemIndex itp) mod unat (ItemBucketCount (MetaCache sl))"
      using hx(2) f(4) by simp
    from remove_wf [OF sl(1,2,3) f(3) pL hx' xs [unfolded f(1)]]
    obtain s1 s3 s' where r:
      "store_slot (if ys = [] then BucketSlot hx else DictNextSlot (last ys)) (DictNext itp) sl
            = Some s1"
      "KeReleaseSpinLock (s1\<lparr>MetaCache := (MetaCache s1)
                         \<lparr>ItemList := remove1 p (ItemList (MetaCache s1)),
                          ItemCount := ItemCount (MetaCache s1) - 1\<rparr>\<rparr>) = Some s3"
      "MetaCacheDereferenceItem p s3 = Some s'"
      "consistent (s', B)" "shrinks sl s'" by blast
    have "MetaCacheInvalidateItem Idx s = Some s'"
      using invalidate_scan_found [OF xs [unfolded f(1)] f(2) ld f(3,4)] r(1,2,3) p0
      by (simp add: MetaCacheInvalidateItem_def acq hx)
    moreover have "shrinks s s'" using shrinks_trans [OF sl(4) r(5)] .
    ultimately show ?thesis using r(4) by simp
  qed
qed

text \<open>One turn of the sweep.\<close>

lemma sweep_turn:
  assumes "consistent (s, B)"
  shows "(MetaCacheInvalidateItems_locked Exp s = Some (0, s) \<and>
            (case ItemList (MetaCache s) of [] \<Rightarrow> True
             | e # _ \<Rightarrow> \<exists>it. ItemHeap s e = Some it \<and> \<not> ExpirationTime it \<le> Exp)) \<or>
         (\<exists>e es s3 s'. ItemList (MetaCache s) = e # es \<and> e \<noteq> 0 \<and>
            MetaCacheInvalidateItems_locked Exp s = Some (e, s3) \<and>
            MetaCacheDereferenceItem e s3 = Some s' \<and> consistent (s', B) \<and> shrinks s s' \<and>
            ItemList (MetaCache s') = es)"
proof -
  from assms have lk: "\<not> SpinLock (MetaCache s)" and st: "struct_wf s" and hi: "heap_inv 0 (s, B)"
    by (simp_all add: consistent_def)
  define sl where "sl = s\<lparr>MetaCache := (MetaCache s)\<lparr>SpinLock := True\<rparr>\<rparr>"
  have acq: "KeAcquireSpinLock s = Some sl" unfolding sl_def by (rule acquire [OF lk])
  have sl: "SpinLock (MetaCache sl)" "struct_wf sl" "heap_inv 0 (sl, B)" "shrinks s sl"
    and rel: "KeReleaseSpinLock sl = Some s"
    and sll: "ItemList (MetaCache sl) = ItemList (MetaCache s)" "ItemHeap sl = ItemHeap s"
    using lk st hi shrinks_refl [of s] unfolding sl_def by (simp_all add: release)
  note st' = sl(2) [unfolded struct_wf_def struct_ok_def]
  show ?thesis
  proof (cases "ItemList (MetaCache s)")
    case Nil
    then show ?thesis
      by (simp add: MetaCacheInvalidateItems_locked_def acq sll rel)
  next
    case (Cons e es)
    then have eL: "e \<in> set (ItemList (MetaCache sl))" by (simp add: sll)
    with st' obtain it where it: "ItemHeap sl e = Some it" by auto
    have e0: "e \<noteq> 0" using it st' by (cases "e = 0") auto
    show ?thesis
    proof (cases "ExpirationTime it \<le> Exp")
      case False
      with Cons it show ?thesis
        by (simp add: MetaCacheInvalidateItems_locked_def acq sll rel)
    next
      case True
      from st' have n0: "ItemBucketCount (MetaCache sl) \<noteq> 0" by simp
      from HashIndex_of_bucket [OF n0, of "ItemIndex it"] obtain hx where
        hx: "HashIndex_of (ItemIndex it) sl = Some hx"
            "unat hx = unat (ItemIndex it) mod unat (ItemBucketCount (MetaCache sl))"
            "unat hx < unat (ItemBucketCount (MetaCache sl))" by blast
      have ilt: "unat hx < length (ItemBuckets (MetaCache sl))" using hx(3) st' by simp
      note ld = load_bucket [OF ilt]
      from st' ilt obtain xs where xs: "chain (ItemHeap sl) (ItemBuckets (MetaCache sl) ! unat hx) xs"
        unfolding bucket_ok_def by blast
      from bucket_ok_chain [OF _ xs] st' ilt 
      have "distinct xs" "e \<in> set xs" using eL it hx(2) by auto
      then obtain ys zs where yz: "xs = ys @ e # zs" "e \<notin> set ys"
        by (meson split_list_first)
      from remove_wf [OF sl(1,2,3) it eL hx(2) xs [unfolded yz(1)]]
      obtain s1 s3 s' where r:
        "store_slot (if ys = [] then BucketSlot hx else DictNextSlot (last ys)) (DictNext it) sl
              = Some s1"
        "KeReleaseSpinLock (s1\<lparr>MetaCache := (MetaCache s1)
                           \<lparr>ItemList := remove1 e (ItemList (MetaCache s1)),
                            ItemCount := ItemCount (MetaCache s1) - 1\<rparr>\<rparr>) = Some s3"
        "MetaCacheDereferenceItem e s3 = Some s'"
        "consistent (s', B)" "shrinks sl s'" "ItemList (MetaCache s') = remove1 e (ItemList (MetaCache sl))"
        by blast
      have "MetaCacheInvalidateItems_locked Exp s = Some (e, s3)"
        using unlink_item_found [OF xs [unfolded yz(1)] yz(2) ld it] r(1,2) True it Cons
        by (simp add: MetaCacheInvalidateItems_locked_def acq sll hx)
      moreover have "shrinks s s'" using shrinks_trans [OF sl(4) r(5)] .
      moreover have "ItemList (MetaCache s') = es" using r(6) Cons sll by simp
      ultimately show ?thesis using r(3,4) Cons e0 by simp
    qed
  qed
qed

text \<open>The sweep returns; it stops on an empty list or on a head that has not expired.\<close>

lemma sweep_wf:
  assumes "consistent (s, B)"
  shows "\<exists>s'. MetaCacheInvalidateItems Exp s = Some s' \<and> consistent (s', B) \<and> shrinks s s' \<and>
           (case ItemList (MetaCache s') of [] \<Rightarrow> True
            | e # _ \<Rightarrow> \<exists>it. ItemHeap s' e = Some it \<and> \<not> ExpirationTime it \<le> Exp)"
  using assms
proof (induction "length (ItemList (MetaCache s))" arbitrary: s rule: less_induct)
  case less
  from sweep_turn [OF less.prems, of Exp] show ?case
  proof (elim disjE exE conjE)
    assume "MetaCacheInvalidateItems_locked Exp s = Some (0, s)"
      "case ItemList (MetaCache s) of [] \<Rightarrow> True
             | e # _ \<Rightarrow> \<exists>it. ItemHeap s e = Some it \<and> \<not> ExpirationTime it \<le> Exp"
    then show ?case using less.prems shrinks_refl [of s]
      by (subst MetaCacheInvalidateItems.simps) simp
  next
    fix e es s3 s'
    assume a: "ItemList (MetaCache s) = e # es" "e \<noteq> 0"
      "MetaCacheInvalidateItems_locked Exp s = Some (e, s3)"
      "MetaCacheDereferenceItem e s3 = Some s'" "consistent (s', B)" "shrinks s s'"
      "ItemList (MetaCache s') = es"
    then have "length (ItemList (MetaCache s')) < length (ItemList (MetaCache s))" by simp
    from less.hyps [OF this a(5)] obtain s'' where
      s'': "MetaCacheInvalidateItems Exp s' = Some s''" "consistent (s'', B)" "shrinks s' s''"
        "case ItemList (MetaCache s'') of [] \<Rightarrow> True
            | e # _ \<Rightarrow> \<exists>it. ItemHeap s'' e = Some it \<and> \<not> ExpirationTime it \<le> Exp" by blast
    have "MetaCacheInvalidateItems Exp s = Some s''"
      using a(2,3,4) s''(1) by (subst MetaCacheInvalidateItems.simps) simp
    with s''(2,4) shrinks_trans [OF a(6) s''(3)] show ?case by simp
  qed
qed

subsection \<open>Insertion\<close>

lemma count_list_remove1:
  "x \<in> set B \<Longrightarrow> count_list (remove1 x B) y = (if x = y then count_list B y - 1 else count_list B y)"
  by (induction B) auto

lemma count_list_le_length: "count_list B y \<le> length B"
  by (induction B) auto

text \<open>Inserting a fresh item with a fresh buffer.\<close>

lemma add_ok:
  assumes st: "struct_ok n bk cnt L h" and hi: "heap_ok 0 L h bh B"
    and fp: "h p = None" and fb: "bh b = None" and p0: "p \<noteq> 0"
    and i: "i = unat Idx mod unat n" and room: "cnt < cap"
    and it: "ItemBuffer it = b" "ItemIndex it = Idx" "DictNext it = bk ! i" "RefCount it = 1"
    and buf: "Item buf = p" "unat (Size buf) = length (Buffer buf)"
  shows "struct_ok n (bk[i := p]) (cnt + 1) (L @ [p]) (h(p \<mapsto> it)) \<and>
         heap_ok 0 (L @ [p]) (h(p \<mapsto> it)) (bh(b \<mapsto> buf)) B"
proof -
  let ?h = "h(p \<mapsto> it)" and ?L = "L @ [p]" and ?bk = "bk[i := p]"
  from st have n0: "n \<noteq> 0" and len: "length bk = unat n" and cnt: "unat cnt = length L"
    and dL: "distinct L" and h0: "h 0 = None" and live: "\<forall>q \<in> set L. h q \<noteq> None"
    and bks: "\<forall>j < length bk. bucket_ok (unat n) L h j (bk ! j)"
    unfolding struct_ok_def by auto
  have ilt: "i < length bk" using i n0 len by (simp add: unat_gt_0)
  have pL: "p \<notin> set L" using live fp by auto
  have "unat cnt < unat cap" using room by (simp add: word_less_nat_alt)
  moreover have "unat cap < 2 ^ 32" using unsigned_less [of cap, where 'a = nat] by simp
  ultimately have "unat cnt + 1 < 2 ^ 32" by simp
  then have cnt': "unat (cnt + 1) = length ?L"
    using cnt by (simp add: unat_word_ariths)
  have bj: "bucket_ok (unat n) ?L ?h j (?bk ! j)" if j: "j < length bk" for j
  proof -
    from bks j obtain xs where xs: "chain h (bk ! j) xs" "distinct xs"
      "set xs = {q \<in> set L. \<exists>x. h q = Some x \<and> unat (ItemIndex x) mod unat n = j}"
      unfolding bucket_ok_def by blast
    have pxs: "p \<notin> set xs" using xs(3) pL by auto
    have c: "chain ?h (bk ! j) xs"
      using xs(1) chain_upd_other [of p xs h "Some it"] pxs by blast
    have new: "\<And>q. (\<exists>x. ?h q = Some x \<and> unat (ItemIndex x) mod unat n = j) =
        (if q = p then i = j else (\<exists>x. h q = Some x \<and> unat (ItemIndex x) mod unat n = j))"
      using i it(2) by auto
    show ?thesis
    proof (cases "j = i")
      case True
      have "chain ?h p (p # xs)" using c p0 it(3) True by simp
      moreover have "distinct (p # xs)" using xs(2) pxs by simp
      moreover have "set (p # xs) = {q \<in> set ?L. \<exists>x. ?h q = Some x \<and> unat (ItemIndex x) mod unat n = j}"
        unfolding new using xs(3) pL True by auto
      moreover have bkj: "?bk ! j = p" using True ilt by simp
      ultimately show ?thesis unfolding bucket_ok_def bkj by blast
    next
      case False
      have "set xs = {q \<in> set ?L. \<exists>x. ?h q = Some x \<and> unat (ItemIndex x) mod unat n = j}"
        unfolding new using xs(3) pL False by auto
      moreover have bkj: "?bk ! j = bk ! j" using False by simp
      ultimately show ?thesis unfolding bucket_ok_def bkj using c xs(2) by blast
    qed
  qed
  have s: "struct_ok n ?bk (cnt + 1) ?L ?h"
    unfolding struct_ok_def
  proof (intro conjI)
    show "n \<noteq> 0" by (rule n0)
    show "length ?bk = unat n" using len by simp
    show "unat (cnt + 1) = length ?L" by (rule cnt')
    show "distinct ?L" using dL pL by simp
    show "?h 0 = None" using h0 p0 by simp
    show "\<forall>q \<in> set ?L. ?h q \<noteq> None" using live by auto
    show "\<forall>j < length ?bk. bucket_ok (unat n) ?L ?h j (?bk ! j)" using bj by simp
  qed
  have nob: "count_list B (b + sizeof_ItemBuffer) = 0"
  proof -
    have "b + sizeof_ItemBuffer \<notin> set B"
    proof
      assume "b + sizeof_ItemBuffer \<in> set B"
      with hi have "bh (b + sizeof_ItemBuffer - sizeof_ItemBuffer) \<noteq> None"
        unfolding heap_ok_def by blast
      with fb show False by simp
    qed
    then show ?thesis by (simp add: count_list_0_iff)
  qed
  have "heap_ok 0 ?L ?h (bh(b \<mapsto> buf)) B"
    unfolding heap_ok_def
  proof (intro conjI allI impI ballI)
    fix q x assume q: "?h q = Some x"
    show "\<exists>b'. (bh(b \<mapsto> buf)) (ItemBuffer x) = Some b' \<and> Item b' = q \<and>
            unat (Size b') = length (Buffer b')"
    proof (cases "q = p")
      case True
      with q it buf show ?thesis by auto
    next
      case False
      with q have hq: "h q = Some x" by simp
      with hi obtain b' where b': "bh (ItemBuffer x) = Some b'" "Item b' = q"
        "unat (Size b') = length (Buffer b')" unfolding heap_ok_def by blast
      with fb have "ItemBuffer x \<noteq> b" by auto
      with b' show ?thesis by simp
    qed
    show "unat (RefCount x) = holders ?L B q x + (if q = 0 then 1 else 0)"
    proof (cases "q = p")
      case True
      with q it nob p0 show ?thesis by (auto simp: holders_def)
    next
      case False
      with q have hq: "h q = Some x" by simp
      with hi have "unat (RefCount x) = holders L B q x + (if q = 0 then 1 else 0)"
        unfolding heap_ok_def by blast
      with False show ?thesis by (simp add: holders_def)
    qed
    show "RefCount x \<noteq> 0"
    proof (cases "q = p")
      case True
      with q it show ?thesis by auto
    next
      case False
      with q have hq: "h q = Some x" by simp
      with hi show ?thesis unfolding heap_ok_def by blast
    qed
  next
    fix q b' assume q: "(bh(b \<mapsto> buf)) q = Some b'"
    show "\<exists>x. ?h (Item b') = Some x \<and> ItemBuffer x = q"
    proof (cases "q = b")
      case True
      with q buf it show ?thesis by auto
    next
      case False
      with q have "bh q = Some b'" by simp
      with hi obtain x where x: "h (Item b') = Some x" "ItemBuffer x = q"
        unfolding heap_ok_def by blast
      with fp have "Item b' \<noteq> p" by auto
      with x show ?thesis by simp
    qed
  next
    fix x assume "x \<in> set B"
    with hi have "sizeof_ItemBuffer \<le> x" "bh (x - sizeof_ItemBuffer) \<noteq> None"
      unfolding heap_ok_def by auto
    then show "sizeof_ItemBuffer \<le> x" "(bh(b \<mapsto> buf)) (x - sizeof_ItemBuffer) \<noteq> None"
      by auto
  qed
  with s show ?thesis by simp
qed

lemma HashIndex_of_eq:
  "ItemBucketCount (MetaCache s') = ItemBucketCount (MetaCache s) \<Longrightarrow>
   HashIndex_of Idx s' = HashIndex_of Idx s"
  by (simp add: HashIndex_of_def)

lemma add_locked_run:
  assumes lk: "\<not> SpinLock (MetaCache s)" and it: "ItemHeap s p = Some it"
    and hx: "HashIndex_of Idx s = Some hx" "unat hx < length (ItemBuckets (MetaCache s))"
    and idx: "Idx = (if NextItemIndex (MetaCache s) = - 1 then 1 else NextItemIndex (MetaCache s) + 1)"
    and room: "ItemCount (MetaCache s) < MetaCapacity (MetaCache s)"
  shows "MetaCacheAddItem_locked p s =
     Some (Idx, True,
           s\<lparr>MetaCache := (MetaCache s)
                 \<lparr>NextItemIndex := Idx, ItemCount := ItemCount (MetaCache s) + 1,
                  ItemList := ItemList (MetaCache s) @ [p],
                  ItemBuckets := (ItemBuckets (MetaCache s))[unat hx := p]\<rparr>,
              ItemHeap := (ItemHeap s)
                 (p \<mapsto> it\<lparr>ItemIndex := Idx, DictNext := ItemBuckets (MetaCache s) ! unat hx\<rparr>)\<rparr>)"
proof -
  define sl where "sl = s\<lparr>MetaCache := (MetaCache s)\<lparr>SpinLock := True\<rparr>\<rparr>"
  have acq: "KeAcquireSpinLock s = Some sl" unfolding sl_def by (rule acquire [OF lk])
  have h: "HashIndex_of Idx sl = Some hx"
    using hx(1) HashIndex_of_eq [of sl s Idx] by (simp add: sl_def)
  have l: "load_slot (BucketSlot hx) sl = Some (ItemBuckets (MetaCache s) ! unat hx)"
    using hx(2) by (simp add: load_slot_def sl_def)
  have f: "ItemCount (MetaCache sl) < MetaCapacity (MetaCache sl)" "ItemHeap sl p = Some it"
    "(if NextItemIndex (MetaCache sl) = - 1 then 1 else NextItemIndex (MetaCache sl) + 1) = Idx"
    using room it idx by (simp_all add: sl_def)
  show ?thesis
    unfolding MetaCacheAddItem_locked_def acq
    apply (simp only: f Let_def h l bind.simps if_True)
    apply (simp add: store_slot_def sl_def hx(2) KeReleaseSpinLock_def lk)
    done
qed

lemma add_locked_full:
  assumes lk: "\<not> SpinLock (MetaCache s)"
    and full: "\<not> ItemCount (MetaCache s) < MetaCapacity (MetaCache s)"
  shows "MetaCacheAddItem_locked p s = Some (0, False, s)"
  using assms
  by (simp add: MetaCacheAddItem_locked_def KeAcquireSpinLock_def KeReleaseSpinLock_def)


text \<open>\<open>MetaCacheAddItem\<close> when both allocations succeed: the prepared item goes through
  the locked section and is freed again if the cache had no room.\<close>

lemma add_allocated:
  assumes sz: "\<not> unat (ItemSizeMax (MetaCache s)) < sizeof_ItemBuffer + unat Sz"
    and pool: "Pool s = p # b # ps" and p0: "p \<noteq> 0" and b0: "b \<noteq> 0"
    and fp: "ItemHeap s p = None" and fb: "BufferHeap s b = None"
    and rd: "unat Sz \<le> length Buf"
  shows "MetaCacheAddItem Buf Sz s =
     do {
       (Idx, HasCapacity, s5) \<leftarrow> MetaCacheAddItem_locked p (prepared p b Buf Sz s);
       s6 \<leftarrow> (if \<not> HasCapacity
              then do { sa \<leftarrow> FspFree_Buffer b s5; FspFree_Item p sa }
              else Some s5);
       Some (Idx, s6)
     }"
  using assms
  unfolding MetaCacheAddItem_def size_test_nat prepared_def
  by (simp add: FspAllocNonPaged_Item_def FspAlloc_Buffer_def Let_def KeQueryInterruptTime_def
        zero_item_def zero_buffer_def)

lemma add_some_allocated:
  assumes "MetaCacheAddItem Buf Sz s = Some (r, s')" "r \<noteq> 0"
  shows "\<exists>p b ps. \<not> unat (ItemSizeMax (MetaCache s)) < sizeof_ItemBuffer + unat Sz \<and>
           Pool s = p # b # ps \<and> p \<noteq> 0 \<and> b \<noteq> 0 \<and> ItemHeap s p = None \<and>
           BufferHeap s b = None \<and> unat Sz \<le> length Buf"
  using assms
  unfolding MetaCacheAddItem_def size_test_nat
  by (auto simp: FspAllocNonPaged_Item_def FspAlloc_Buffer_def Let_def
        split: if_splits Option.bind_splits prod.splits list.splits)

lemma add_rejected:
  assumes "MetaCacheAddItem Buf Sz s = Some (0, s')"
  shows "MetaCache s' = MetaCache s \<and> ItemHeap s' = ItemHeap s \<and> BufferHeap s' = BufferHeap s \<and>
         InterruptTime s' = InterruptTime s"
  using assms unfolding MetaCacheAddItem_def
  apply (simp split: if_splits Option.bind_splits prod.splits)
  apply (auto dest!: alloc_item_cases alloc_buffer_cases locked_zero
              simp: FspFree_Item_def FspFree_Buffer_def split: if_splits)
  done

lemma wf_cong:
  "MetaCache s' = MetaCache s \<Longrightarrow> ItemHeap s' = ItemHeap s \<Longrightarrow> BufferHeap s' = BufferHeap s \<Longrightarrow>
   consistent (s', B) = consistent (s, B)"
  by (simp add: consistent_def struct_wf_def heap_inv_def)

lemma add_wf:
  assumes consistent: "consistent (s, B)" and run: "MetaCacheAddItem Buf Sz s = Some (r, s')"
  shows "consistent (s', B) \<and> grows s s'"
proof (cases "r = 0")
  case True
  from add_rejected [OF run [unfolded True]]
  have e: "MetaCache s' = MetaCache s" "ItemHeap s' = ItemHeap s" "BufferHeap s' = BufferHeap s"
    "InterruptTime s' = InterruptTime s" by simp_all
  then have "grows s s'" by (simp add: grows_def)
  with consistent wf_cong [OF e(1,2,3)] show ?thesis by simp
next
  case False
  from consistent have lk: "\<not> SpinLock (MetaCache s)" and st: "struct_wf s" and hi: "heap_inv 0 (s, B)"
    by (simp_all add: consistent_def)
  note st' = st [unfolded struct_wf_def] and hi' = hi [unfolded heap_inv_def fst_conv snd_conv]
  from add_some_allocated [OF run False] obtain p b ps where
    a: "\<not> unat (ItemSizeMax (MetaCache s)) < sizeof_ItemBuffer + unat Sz"
       "Pool s = p # b # ps" "p \<noteq> 0" "b \<noteq> 0" "ItemHeap s p = None"
       "BufferHeap s b = None" "unat Sz \<le> length Buf" by blast
  define sp where "sp = prepared p b Buf Sz s"
  define Idx where "Idx = (if NextItemIndex (MetaCache s) = - 1 then 1 else NextItemIndex (MetaCache s) + 1)"
  define it0 where "it0 = \<lparr>DictNext = 0, ItemBuffer = b, ItemIndex = 0,
                  ExpirationTime = InterruptTime s + MetaTimeout (MetaCache s), RefCount = 1\<rparr>"
  have sp: "MetaCache sp = MetaCache s" "ItemHeap sp = (ItemHeap s)(p \<mapsto> it0)"
    "BufferHeap sp = (BufferHeap s)(b \<mapsto> \<lparr>Item = p, Size = Sz, Buffer = take (unat Sz) Buf\<rparr>)"
    "InterruptTime sp = InterruptTime s"
    unfolding sp_def prepared_def it0_def by simp_all
  from st' have n0: "ItemBucketCount (MetaCache sp) \<noteq> 0" by (simp add: struct_ok_def sp)
  from HashIndex_of_bucket [OF n0, of Idx] obtain hx where
    hx: "HashIndex_of Idx sp = Some hx"
        "unat hx = unat Idx mod unat (ItemBucketCount (MetaCache sp))"
        "unat hx < unat (ItemBucketCount (MetaCache sp))" by blast
  have ilt: "unat hx < length (ItemBuckets (MetaCache sp))" using hx(3) st' by (simp add: struct_ok_def sp)
  have room: "ItemCount (MetaCache s) < MetaCapacity (MetaCache s)"
  proof (rule ccontr)
    assume "\<not> ItemCount (MetaCache s) < MetaCapacity (MetaCache s)"
    then have "MetaCacheAddItem_locked p sp = Some (0, False, sp)"
      using add_locked_full [of sp p] lk by (simp add: sp)
    with run add_allocated [OF a, folded sp_def] have "r = 0"
      by (auto split: Option.bind_splits)
    with False show False by simp
  qed
  define it where "it = it0\<lparr>ItemIndex := Idx, DictNext := ItemBuckets (MetaCache s) ! unat hx\<rparr>"
  have lkd: "MetaCacheAddItem_locked p sp =
     Some (Idx, True,
           sp\<lparr>MetaCache := (MetaCache sp)
                 \<lparr>NextItemIndex := Idx, ItemCount := ItemCount (MetaCache sp) + 1,
                  ItemList := ItemList (MetaCache sp) @ [p],
                  ItemBuckets := (ItemBuckets (MetaCache sp))[unat hx := p]\<rparr>,
              ItemHeap := (ItemHeap sp)
                 (p \<mapsto> it0\<lparr>ItemIndex := Idx, DictNext := ItemBuckets (MetaCache sp) ! unat hx\<rparr>)\<rparr>)"
    by (rule add_locked_run [OF _ _ hx(1) ilt]) (simp_all add: sp lk room Idx_def)
  have s': "s' = sp\<lparr>MetaCache := (MetaCache sp)
                 \<lparr>NextItemIndex := Idx, ItemCount := ItemCount (MetaCache sp) + 1,
                  ItemList := ItemList (MetaCache sp) @ [p],
                  ItemBuckets := (ItemBuckets (MetaCache sp))[unat hx := p]\<rparr>,
              ItemHeap := (ItemHeap sp)
                 (p \<mapsto> it0\<lparr>ItemIndex := Idx, DictNext := ItemBuckets (MetaCache sp) ! unat hx\<rparr>)\<rparr>"
    using run add_allocated [OF a, folded sp_def] lkd by auto
  have c: "MetaCache s' = (MetaCache s)
                 \<lparr>NextItemIndex := Idx, ItemCount := ItemCount (MetaCache s) + 1,
                  ItemList := ItemList (MetaCache s) @ [p],
                  ItemBuckets := (ItemBuckets (MetaCache s))[unat hx := p]\<rparr>"
    "ItemHeap s' = (ItemHeap s)(p \<mapsto> it)"
    "BufferHeap s' = (BufferHeap s)(b \<mapsto> \<lparr>Item = p, Size = Sz, Buffer = take (unat Sz) Buf\<rparr>)"
    "InterruptTime s' = InterruptTime s"
    unfolding s' it_def by (simp_all add: sp)
  have ok: "struct_ok (ItemBucketCount (MetaCache s)) ((ItemBuckets (MetaCache s))[unat hx := p])
               (ItemCount (MetaCache s) + 1) (ItemList (MetaCache s) @ [p]) ((ItemHeap s)(p \<mapsto> it)) \<and>
            heap_ok 0 (ItemList (MetaCache s) @ [p]) ((ItemHeap s)(p \<mapsto> it))
               ((BufferHeap s)(b \<mapsto> \<lparr>Item = p, Size = Sz, Buffer = take (unat Sz) Buf\<rparr>)) B"
    by (rule add_ok [OF st' hi' a(5,6,3) _ room, where Idx = Idx])
       (simp_all add: hx(2) [unfolded sp] it_def it0_def a(7))
  have "consistent (s', B)"
    using ok lk by (simp add: consistent_def struct_wf_def heap_inv_def c)
  moreover have "grows s s'"
    unfolding grows_def using a(5,6) by (auto simp: c it_def it0_def)
  ultimately show ?thesis by simp
qed

subsection \<open>Borrow and return\<close>

text \<open>Returning a borrowed pointer.\<close>

lemma return_wf:
  assumes consistent: "consistent (s, B)" and x: "x \<in> set B"
  shows "\<exists>s'. MetaCacheDereferenceItemBuffer x s = Some s' \<and> consistent (s', remove1 x B) \<and> shrinks s s'"
proof -
  from consistent have lk: "\<not> SpinLock (MetaCache s)" and st: "struct_wf s" and hi: "heap_inv 0 (s, B)"
    by (simp_all add: consistent_def)
  note hi' = hi [unfolded heap_inv_def fst_conv snd_conv]
  let ?L = "ItemList (MetaCache s)" and ?h = "ItemHeap s" and ?bh = "BufferHeap s"
  from hi' x obtain b where b: "sizeof_ItemBuffer \<le> x" "?bh (x - sizeof_ItemBuffer) = Some b"
    unfolding heap_ok_def by auto
  with hi' obtain it where it: "?h (Item b) = Some it" "ItemBuffer it = x - sizeof_ItemBuffer"
    unfolding heap_ok_def by blast
  have pay: "ItemBuffer it + sizeof_ItemBuffer = x" using it(2) b(1) by simp
  have "heap_ok (Item b) ?L ?h ?bh (remove1 x B)"
    unfolding heap_ok_def
  proof (intro conjI allI impI ballI)
    fix q itq assume q: "?h q = Some itq"
    with hi' have a: "\<exists>b. ?bh (ItemBuffer itq) = Some b \<and> Item b = q \<and> unat (Size b) = length (Buffer b)"
      and r: "unat (RefCount itq) = holders ?L B q itq + (if q = 0 then 1 else 0)"
      and nz: "RefCount itq \<noteq> 0" unfolding heap_ok_def by auto
    show "\<exists>b. ?bh (ItemBuffer itq) = Some b \<and> Item b = q \<and> unat (Size b) = length (Buffer b)"
      by (rule a)
    show "RefCount itq \<noteq> 0" by (rule nz)
    have q0: "q \<noteq> 0" using st q unfolding struct_wf_def by (rule live_not_null)
    show "unat (RefCount itq) = holders ?L (remove1 x B) q itq + (if q = Item b then 1 else 0)"
    proof (cases "q = Item b")
      case True
      with q it have "itq = it" by simp
      moreover have "0 < count_list B x" using x count_list_0_iff [of B x] by auto
      ultimately show ?thesis using r q0 True pay x
        by (simp add: holders_def count_list_remove1)
    next
      case False
      have "ItemBuffer itq \<noteq> ItemBuffer it"
        using heap_ok_buffer_inj [OF hi' q it(1)] False by blast
      then have "ItemBuffer itq + sizeof_ItemBuffer \<noteq> x" using pay by auto
      then show ?thesis using r q0 False x
        by (simp add: holders_def count_list_remove1)
    qed
  next
    fix q bq assume "?bh q = Some bq"
    with hi' show "\<exists>it. ?h (Item bq) = Some it \<and> ItemBuffer it = q"
      unfolding heap_ok_def by blast
  next
    fix y assume "y \<in> set (remove1 x B)"
    then have "y \<in> set B" using set_remove1_subset [of x B] by blast
    with hi' show "sizeof_ItemBuffer \<le> y" "?bh (y - sizeof_ItemBuffer) \<noteq> None"
      unfolding heap_ok_def by auto
  qed
  then have "heap_inv (Item b) (s, remove1 x B)" by (simp add: heap_inv_def)
  from deref_wf [OF st this it(1)] obtain s' where
    s': "MetaCacheDereferenceItem (Item b) s = Some s'" "struct_wf s'"
      "heap_inv 0 (s', remove1 x B)" "shrinks s s'" "MetaCache s' = MetaCache s" by blast
  have "MetaCacheDereferenceItemBuffer x s = Some s'"
    using b s'(1) by (simp add: MetaCacheDereferenceItemBuffer_def)
  with s' lk show ?thesis by (simp add: consistent_def)
qed

lemma holders_cons:
  "holders L (x # B) p it =
     holders L B p it + (if x = ItemBuffer it + sizeof_ItemBuffer then 1 else 0)"
  by (simp add: holders_def)

text \<open>Taking one more reference on a live item.\<close>

lemma borrow_ok:
  assumes st: "struct_ok n bk cnt L h" and hi: "heap_ok 0 L h bh B" and it: "h p = Some it"
    and bound: "length B + 2 < 2 ^ 32"
  shows "struct_ok n bk cnt L (h(p \<mapsto> it\<lparr>RefCount := RefCount it + 1\<rparr>)) \<and>
         heap_ok 0 L (h(p \<mapsto> it\<lparr>RefCount := RefCount it + 1\<rparr>)) bh
           ((ItemBuffer it + sizeof_ItemBuffer) # B) \<and>
         bh (ItemBuffer it) \<noteq> None"
proof -
  let ?it = "it\<lparr>RefCount := RefCount it + 1\<rparr>"
  let ?h = "h(p \<mapsto> ?it)" and ?B = "(ItemBuffer it + sizeof_ItemBuffer) # B"
  have p0: "p \<noteq> 0" using st it by (rule live_not_null)
  from hi it have b: "\<exists>b. bh (ItemBuffer it) = Some b \<and> Item b = p \<and> unat (Size b) = length (Buffer b)"
    and r: "unat (RefCount it) = holders L B p it" using p0 unfolding heap_ok_def by auto
  have "holders L B p it \<le> 1 + length B"
    using count_list_le_length [of B "ItemBuffer it + sizeof_ItemBuffer"] by (simp add: holders_def)
  then have "unat (RefCount it) + unat (1 :: 32 word) < 2 ^ 32" using r bound by simp
  then have inc: "unat (RefCount it + 1) = holders L B p it + 1"
    using r by (simp add: unat_word_ariths)
  have nz: "RefCount it + 1 \<noteq> 0"
  proof
    assume "RefCount it + 1 = 0"
    then have "unat (RefCount it + 1) = 0" by simp
    with inc show False by simp
  qed
  have s: "struct_ok n bk cnt L ?h"
    using st it struct_ok_field [of h p it ?it n bk cnt L] by simp
  have "heap_ok 0 L ?h bh ?B"
    unfolding heap_ok_def
  proof (intro conjI [OF _ conjI] allI impI ballI)
    fix q itq assume q: "?h q = Some itq"
    have q0: "q \<noteq> 0" using q p0 live_not_null [OF st] by (cases "q = p") auto
    show "\<exists>b. bh (ItemBuffer itq) = Some b \<and> Item b = q \<and> unat (Size b) = length (Buffer b)"
    proof (cases "q = p")
      case True
      with q have "ItemBuffer itq = ItemBuffer it" by auto
      with b True show ?thesis by simp
    next
      case False
      with q have "h q = Some itq" by simp
      with hi show ?thesis unfolding heap_ok_def by blast
    qed
    show "unat (RefCount itq) = holders L ?B q itq + (if q = 0 then 1 else 0)"
    proof (cases "q = p")
      case True
      with q have e: "itq = ?it" by simp
      have "holders L ?B p itq = holders L B p it + 1"
        unfolding e holders_cons by (simp add: holders_def)
      with inc q0 True e show ?thesis by simp
    next
      case False
      with q have hq: "h q = Some itq" by simp
      have "ItemBuffer itq \<noteq> ItemBuffer it"
        using heap_ok_buffer_inj [OF hi hq it] False by blast
      moreover from hi hq have "unat (RefCount itq) = holders L B q itq + (if q = 0 then 1 else 0)"
        unfolding heap_ok_def by blast
      ultimately show ?thesis by (simp add: holders_cons)
    qed
    show "RefCount itq \<noteq> 0"
    proof (cases "q = p")
      case True
      with q nz show ?thesis by auto
    next
      case False
      with q have "h q = Some itq" by simp
      with hi show ?thesis unfolding heap_ok_def by blast
    qed
  next
    fix q bq assume "bh q = Some bq"
    with hi obtain x where x: "h (Item bq) = Some x" "ItemBuffer x = q"
      unfolding heap_ok_def by blast
    with it show "\<exists>it'. ?h (Item bq) = Some it' \<and> ItemBuffer it' = q"
      by (cases "Item bq = p") auto
  next
    fix x assume "x \<in> set ?B"
    then consider "x = ItemBuffer it + sizeof_ItemBuffer" | "x \<in> set B" by auto
    then show "sizeof_ItemBuffer \<le> x \<and> bh (x - sizeof_ItemBuffer) \<noteq> None"
    proof cases
      case 1
      with b show ?thesis by auto
    next
      case 2
      with hi show ?thesis unfolding heap_ok_def by blast
    qed
  qed
  with s b show ?thesis by auto
qed

lemma borrow_wf:
  assumes consistent: "consistent (s, B)" and bound: "length B + 2 < 2 ^ 32"
  shows "\<exists>p sz s'. MetaCacheReferenceItemBuffer Idx PSize s = Some (p, sz, s') \<and>
           consistent (s', if p = 0 then B else p # B) \<and> shrinks s s'"
proof -
  from consistent have lk: "\<not> SpinLock (MetaCache s)" and st: "struct_wf s" and hi: "heap_inv 0 (s, B)"
    by (simp_all add: consistent_def)
  define sl where "sl = s\<lparr>MetaCache := (MetaCache s)\<lparr>SpinLock := True\<rparr>\<rparr>"
  have acq: "KeAcquireSpinLock s = Some sl" unfolding sl_def by (rule acquire [OF lk])
  have sl: "SpinLock (MetaCache sl)" "struct_wf sl" "heap_inv 0 (sl, B)"
    and rel: "KeReleaseSpinLock sl = Some s"
    using lk st hi unfolding sl_def by (simp_all add: release)
  note st' = sl(2) [unfolded struct_wf_def struct_ok_def]
  from st' have n0: "ItemBucketCount (MetaCache sl) \<noteq> 0" by simp
  from HashIndex_of_bucket [OF n0, of Idx] obtain hx where
    hx: "HashIndex_of Idx sl = Some hx"
        "unat hx < unat (ItemBucketCount (MetaCache sl))" by blast
  have ilt: "unat hx < length (ItemBuckets (MetaCache sl))" using hx(2) st' by simp
  note ld = load_bucket [OF ilt]
  from st' ilt obtain xs where xs: "chain (ItemHeap sl) (ItemBuckets (MetaCache sl) ! unat hx) xs"
    unfolding bucket_ok_def by blast
  from first_index [of xs "ItemHeap sl" Idx] show ?thesis
  proof
    assume "\<forall>x\<in>set xs. no_index (ItemHeap sl) Idx x"
    from reference_scan_absent [OF xs this]
    have "MetaCacheReferenceItemBuffer Idx PSize s = Some (0, map_option (\<lambda>_. 0) PSize, s)"
      by (simp add: MetaCacheReferenceItemBuffer_def acq hx ld rel)
    with consistent shrinks_refl show ?thesis by simp
  next
    assume "\<exists>ys p zs. xs = ys @ p # zs \<and> \<not> no_index (ItemHeap sl) Idx p \<and>
              (\<forall>x\<in>set ys. no_index (ItemHeap sl) Idx x)"
    then obtain ys p zs itp where f: "xs = ys @ p # zs" "\<forall>x\<in>set ys. no_index (ItemHeap sl) Idx x"
      "ItemHeap sl p = Some itp" "ItemIndex itp = Idx"
      by (auto simp: no_index_def split: option.splits)
    have p0: "p \<noteq> 0" using chain_live [OF xs, of p] f(1) by simp
    have itp: "ItemHeap s p = Some itp" using f(3) by (simp add: sl_def)
    let ?it = "itp\<lparr>RefCount := RefCount itp + 1\<rparr>"
    define s' where "s' = s\<lparr>ItemHeap := (ItemHeap s)(p \<mapsto> ?it)\<rparr>"
    note ok = borrow_ok [OF st [unfolded struct_wf_def] hi [unfolded heap_inv_def fst_conv snd_conv]
      itp bound]
    then obtain b where b: "BufferHeap s (ItemBuffer itp) = Some b" by auto
    have rs: "reference_scan Idx (ItemBuckets (MetaCache sl) ! unat hx) sl =
        Some (p, sl\<lparr>ItemHeap := (ItemHeap sl)(p \<mapsto> ?it)\<rparr>)"
      by (rule reference_scan_found [OF xs [unfolded f(1)] f(2) f(3) f(4)])
    have rl: "KeReleaseSpinLock (sl\<lparr>ItemHeap := (ItemHeap sl)(p \<mapsto> ?it)\<rparr>) = Some s'"
      using lk by (simp add: KeReleaseSpinLock_def sl_def s'_def)
    have "MetaCacheReferenceItemBuffer Idx PSize s =
            Some (ItemBuffer itp + sizeof_ItemBuffer, map_option (\<lambda>_. Size b) PSize, s')"
      using p0 b by (simp add: MetaCacheReferenceItemBuffer_def acq hx ld rs rl) (simp add: s'_def)
    moreover have "consistent (s', (ItemBuffer itp + sizeof_ItemBuffer) # B)"
      using ok lk by (simp add: consistent_def struct_wf_def heap_inv_def s'_def)
    moreover have "shrinks s s'"
      using shrinks_refl [of s] itp unfolding shrinks_def s'_def by (auto split: if_splits)
    moreover have "(if ItemBuffer itp + sizeof_ItemBuffer = 0 then B
                    else (ItemBuffer itp + sizeof_ItemBuffer) # B) =
                   (ItemBuffer itp + sizeof_ItemBuffer) # B"
      by (simp add: sizeof_ItemBuffer_def)
    ultimately show ?thesis
      by (intro exI [of _ "ItemBuffer itp + sizeof_ItemBuffer"] exI [of _ "map_option (\<lambda>_. Size b) PSize"]
            exI [of _ s']) (simp only: simp_thms)
  qed
qed

subsection \<open>Every reachable state is consistent\<close>

lemma create_wf:
  assumes "MetaCacheCreate pool now n cap mx tmo = Inr s" "n \<noteq> 0"
  shows "consistent (s, [])"
proof -
  from assms(1) obtain p ps where
    s: "s = \<lparr>MetaCache =
                      \<lparr>SpinLock = False, ItemList = [], MetaCapacity = cap,
                       ItemSizeMax = mx, MetaTimeout = tmo,
                       ItemBucketCount = n, ItemCount = 0, NextItemIndex = 0,
                       ItemBuckets = replicate (unat n) 0\<rparr>,
                    ItemHeap = Map.empty, BufferHeap = Map.empty,
                    Pool = ps, InterruptTime = now\<rparr>"
    by (auto simp: MetaCacheCreate_def split: list.splits if_splits)
  have "bucket_ok (unat n) [] Map.empty i 0" for i
    unfolding bucket_ok_def by (rule exI [of _ "[]"]) simp
  then have "struct_ok n (replicate (unat n) 0) 0 [] Map.empty"
    using assms(2) by (simp add: struct_ok_def)
  moreover have "heap_ok 0 [] Map.empty Map.empty []"
    by (simp add: heap_ok_def)
  ultimately show ?thesis by (simp add: consistent_def struct_wf_def heap_inv_def s)
qed

lemma exec_wf:
  assumes "consistent w" "exec c w = Some w'"
  shows "consistent w'"
proof -
  obtain s B where w: "w = (s, B)" by (cases w)
  show ?thesis
  proof (cases c)
    case (Add Buf Sz)
    with assms w obtain r s' where "MetaCacheAddItem Buf Sz s = Some (r, s')" "w' = (s', B)"
      by auto
    with add_wf [OF assms(1) [unfolded w]] show ?thesis by blast
  next
    case (Borrow Idx PSize)
    with assms w have b: "length B + 2 < 2 ^ 32" by (auto split: if_splits)
    from borrow_wf [OF assms(1) [unfolded w] b, of Idx PSize] assms(2) w Borrow b
    show ?thesis by auto
  next
    case (Return x)
    with assms w have x: "x \<in> set B" by (auto split: if_splits)
    from return_wf [OF assms(1) [unfolded w] x] assms(2) w Return x
    show ?thesis by auto
  next
    case (Invalidate Idx)
    from invalidate_wf [OF assms(1) [unfolded w], of Idx] assms(2) w Invalidate
    show ?thesis by auto
  next
    case InvalidateExpired
    from sweep_wf [OF assms(1) [unfolded w], of "KeQueryInterruptTime s"] assms(2) w InvalidateExpired
    show ?thesis by (auto simp: MetaCacheInvalidateExpired_def)
  next
    case InvalidateAll
    from sweep_wf [OF assms(1) [unfolded w], of "- 1"] assms(2) w InvalidateAll
    show ?thesis by (auto simp: MetaCacheInvalidateAll_def)
  next
    case (Tick d)
    with assms w show ?thesis
      by (auto simp: consistent_def struct_wf_def heap_inv_def split: if_splits)
  qed
qed

lemma reachable_wf: "reachable w \<Longrightarrow> consistent w"
  by (induction rule: reachable.induct) (auto intro: create_wf exec_wf)

lemma run_reachable: "reachable w \<Longrightarrow> run cs w = Some w' \<Longrightarrow> reachable w'"
  by (induction cs arbitrary: w) (auto split: option.splits intro: reachable.called)

subsection \<open>Handles, the full cache, and the round trip\<close>

lemma unat_max64: "unat (- 1 :: 64 word) = 2 ^ 64 - 1"
  by (simp add: unsigned_minus_1_eq_mask mask_eq_exp_minus_1)

lemma next_handle_code:
  "(if n = - 1 then 1 else n + 1) = next_handle (n :: UINT64)"
proof -
  have "(n = - 1) = (unat n = 2 ^ 64 - 1)"
    using unat_max64 by (metis word_unat_eq_iff) 
  then show ?thesis by (simp add: next_handle_def)
qed

lemma next_handle_nat:
  "unat (next_handle n) = (if unat n = 2 ^ 64 - 1 then 1 else unat n + 1)"
proof (cases "unat n = 2 ^ 64 - 1")
  case True
  then show ?thesis by (simp add: next_handle_def)
next
  case False
  have "unat n < 2 ^ 64" using unsigned_less [of n, where 'a = nat] by simp
  with False have "unat n + 1 < 2 ^ 64" by simp
  then have "unat (word_of_nat (unat n + 1) :: 64 word) = unat n + 1"
    using unat_of_nat [of "unat n + 1", where 'a = 64] by simp
  with False show ?thesis by (simp add: next_handle_def del: of_nat_add of_nat_Suc)
qed

text \<open>An insertion that finds room: the result and the state.\<close>

lemma add_inserted:
  assumes ok: "consistent (s, B)"
    and a: "\<not> unat (ItemSizeMax (MetaCache s)) < sizeof_ItemBuffer + unat Sz"
       "Pool s = p # b # ps" "p \<noteq> 0" "b \<noteq> 0" "ItemHeap s p = None"
       "BufferHeap s b = None" "unat Sz \<le> length Buf"
    and room: "ItemCount (MetaCache s) < MetaCapacity (MetaCache s)"
    and Idx: "Idx = (if NextItemIndex (MetaCache s) = - 1 then 1 else NextItemIndex (MetaCache s) + 1)"
  shows "\<exists>hx s'. MetaCacheAddItem Buf Sz s = Some (Idx, s') \<and>
           HashIndex_of Idx s = Some hx \<and> unat hx < length (ItemBuckets (MetaCache s)) \<and>
           MetaCache s' = (MetaCache s)
                 \<lparr>NextItemIndex := Idx, ItemCount := ItemCount (MetaCache s) + 1,
                  ItemList := ItemList (MetaCache s) @ [p],
                  ItemBuckets := (ItemBuckets (MetaCache s))[unat hx := p]\<rparr> \<and>
           ItemHeap s' = (ItemHeap s)
              (p \<mapsto> \<lparr>DictNext = ItemBuckets (MetaCache s) ! unat hx, ItemBuffer = b,
                     ItemIndex = Idx,
                     ExpirationTime = InterruptTime s + MetaTimeout (MetaCache s),
                     RefCount = 1\<rparr>) \<and>
           BufferHeap s' = (BufferHeap s)
              (b \<mapsto> \<lparr>Item = p, Size = Sz, Buffer = take (unat Sz) Buf\<rparr>) \<and>
           InterruptTime s' = InterruptTime s \<and> Pool s' = ps"
proof -
  from ok have lk: "\<not> SpinLock (MetaCache s)" and st: "struct_wf s"
    by (simp_all add: consistent_def)
  note st' = st [unfolded struct_wf_def]
  define sp where "sp = prepared p b Buf Sz s"
  define it0 where "it0 = \<lparr>DictNext = 0, ItemBuffer = b, ItemIndex = 0,
                  ExpirationTime = InterruptTime s + MetaTimeout (MetaCache s), RefCount = 1\<rparr>"
  have sp: "MetaCache sp = MetaCache s" "ItemHeap sp = (ItemHeap s)(p \<mapsto> it0)"
    "BufferHeap sp = (BufferHeap s)(b \<mapsto> \<lparr>Item = p, Size = Sz, Buffer = take (unat Sz) Buf\<rparr>)"
    "InterruptTime sp = InterruptTime s" "Pool sp = ps"
    unfolding sp_def prepared_def it0_def by (simp_all add: a(2))
  from st' have n0: "ItemBucketCount (MetaCache s) \<noteq> 0" by (simp add: struct_ok_def)
  from HashIndex_of_bucket [OF n0, of Idx] obtain hx where
    hx: "HashIndex_of Idx s = Some hx" "unat hx < unat (ItemBucketCount (MetaCache s))" by blast
  have ilt: "unat hx < length (ItemBuckets (MetaCache s))" using hx(2) st' by (simp add: struct_ok_def)
  have hx': "HashIndex_of Idx sp = Some hx" using hx(1) HashIndex_of_eq [of sp s Idx] by (simp add: sp)
  have lkd: "MetaCacheAddItem_locked p sp =
     Some (Idx, True,
           sp\<lparr>MetaCache := (MetaCache sp)
                 \<lparr>NextItemIndex := Idx, ItemCount := ItemCount (MetaCache sp) + 1,
                  ItemList := ItemList (MetaCache sp) @ [p],
                  ItemBuckets := (ItemBuckets (MetaCache sp))[unat hx := p]\<rparr>,
              ItemHeap := (ItemHeap sp)
                 (p \<mapsto> it0\<lparr>ItemIndex := Idx, DictNext := ItemBuckets (MetaCache sp) ! unat hx\<rparr>)\<rparr>)"
    by (rule add_locked_run [OF _ _ hx']) (simp_all add: sp lk room Idx ilt)
  show ?thesis
    using add_allocated [OF a, folded sp_def] lkd hx(1) ilt
    by (simp add: sp it0_def)
qed

text \<open>An insertion that returns a handle has found what \<open>add_inserted\<close> asks for.\<close>

lemma add_nonzero:
  assumes ok: "consistent (s, B)" and run: "MetaCacheAddItem Buf Sz s = Some (r, s')" and r: "r \<noteq> 0"
  shows "\<exists>p b ps. \<not> unat (ItemSizeMax (MetaCache s)) < sizeof_ItemBuffer + unat Sz \<and>
           Pool s = p # b # ps \<and> p \<noteq> 0 \<and> b \<noteq> 0 \<and> ItemHeap s p = None \<and>
           BufferHeap s b = None \<and> unat Sz \<le> length Buf \<and>
           ItemCount (MetaCache s) < MetaCapacity (MetaCache s)"
proof -
  from ok have lk: "\<not> SpinLock (MetaCache s)" by (simp add: consistent_def)
  from add_some_allocated [OF run r] obtain p b ps where
    a: "\<not> unat (ItemSizeMax (MetaCache s)) < sizeof_ItemBuffer + unat Sz"
       "Pool s = p # b # ps" "p \<noteq> 0" "b \<noteq> 0" "ItemHeap s p = None"
       "BufferHeap s b = None" "unat Sz \<le> length Buf" by blast
  have "ItemCount (MetaCache s) < MetaCapacity (MetaCache s)"
  proof (rule ccontr)
    assume "\<not> ItemCount (MetaCache s) < MetaCapacity (MetaCache s)"
    then have "MetaCacheAddItem_locked p (prepared p b Buf Sz s) = Some (0, False, prepared p b Buf Sz s)"
      using add_locked_full [of "prepared p b Buf Sz s" p] lk by (simp add: prepared_def)
    with run add_allocated [OF a] have "r = 0"
      by (auto split: Option.bind_splits)
    with r show False by simp
  qed
  with a show ?thesis by blast
qed

lemma replicate_2: "replicate 2 x = [x, x]"
  by (simp add: numeral_2_eq_2)

lemma demo_created: "MetaCacheCreate (100 # demo_pool) 0 2 2 4096 100 = Inr demo"
  by (simp add: MetaCacheCreate_def demo_def replicate_2)

lemma demo_reachable: "reachable (demo, [])"
  by (rule reachable.created [OF _ demo_created]) simp

lemma consistent_next_index:
  "consistent (s\<lparr>MetaCache := (MetaCache s)\<lparr>NextItemIndex := n\<rparr>\<rparr>, B) = consistent (s, B)"
  by (simp add: consistent_def struct_wf_def heap_inv_def)

lemma demo_wrap_consistent: "consistent (demo_wrap, [])"
  unfolding demo_wrap_def consistent_next_index by (rule reachable_wf [OF demo_reachable])

text \<open>
  Claim C2. Handle allocation is monotonic from the zero-initialised state: a new cache
  has \<open>next_handle = 0\<close>; an \<open>Add\<close> that is admitted (the size test passes, both
  allocations succeed, \<open>count < capacity\<close>) returns the handle \<open>next_handle + 1\<close>, or
  \<open>1\<close> when \<open>next_handle\<close> is the unsigned 64-bit maximum, and stores that handle as
  the new \<open>next_handle\<close>. The handle is never 0, and the handle after the maximum is 1.
  Conversely, whatever the arguments, an \<open>Add\<close> that returns a handle other than 0
  returns that handle and stores it as the new \<open>next_handle\<close>.
\<close>

theorem handle_allocation:
  assumes "consistent (s, B)"
    and "\<not> unat (ItemSizeMax (MetaCache s)) < sizeof_ItemBuffer + unat Sz"
    and "Pool s = p # b # ps" "p \<noteq> 0" "b \<noteq> 0" "ItemHeap s p = None" "BufferHeap s b = None"
    and "unat Sz \<le> length Buf"
    and "ItemCount (MetaCache s) < MetaCapacity (MetaCache s)"
  shows "(\<exists>s'. MetaCacheAddItem Buf Sz s = Some (next_handle (NextItemIndex (MetaCache s)), s') \<and>
              NextItemIndex (MetaCache s') = next_handle (NextItemIndex (MetaCache s))) \<and>
         next_handle (NextItemIndex (MetaCache s)) \<noteq> 0 \<and>
         unat (next_handle (NextItemIndex (MetaCache s))) =
           (if unat (NextItemIndex (MetaCache s)) = 2 ^ 64 - 1 then 1
            else unat (NextItemIndex (MetaCache s)) + 1) \<and>
         (\<forall>Buf' Sz' h s'. MetaCacheAddItem Buf' Sz' s = Some (h, s') \<longrightarrow> h \<noteq> 0 \<longrightarrow>
            h = next_handle (NextItemIndex (MetaCache s)) \<and> NextItemIndex (MetaCache s') = h) \<and>
         (\<forall>pool now n cap mx tmo s0.
            MetaCacheCreate pool now n cap mx tmo = Inr s0 \<longrightarrow> NextItemIndex (MetaCache s0) = 0)"
proof -
  let ?N = "NextItemIndex (MetaCache s)"
  have conv: "h = next_handle ?N \<and> NextItemIndex (MetaCache s') = h"
    if run: "MetaCacheAddItem Buf' Sz' s = Some (h, s')" and h: "h \<noteq> 0" for Buf' Sz' h s'
  proof -
    from add_nonzero [OF assms(1) run h] obtain p' b' ps' where
      a: "\<not> unat (ItemSizeMax (MetaCache s)) < sizeof_ItemBuffer + unat Sz'"
         "Pool s = p' # b' # ps'" "p' \<noteq> 0" "b' \<noteq> 0" "ItemHeap s p' = None"
         "BufferHeap s b' = None" "unat Sz' \<le> length Buf'"
         "ItemCount (MetaCache s) < MetaCapacity (MetaCache s)" by blast
    from add_inserted [OF assms(1) a next_handle_code [symmetric]] run
    show ?thesis by auto
  qed
  from add_inserted [OF assms next_handle_code [symmetric]]
  have "\<exists>s'. MetaCacheAddItem Buf Sz s = Some (next_handle ?N, s') \<and>
              NextItemIndex (MetaCache s') = next_handle ?N" by auto
  moreover have "next_handle ?N \<noteq> 0"
  proof
    assume "next_handle ?N = 0"
    then have "unat (next_handle ?N) = 0" by simp
    then show False by (simp add: next_handle_nat split: if_splits)
  qed
  moreover have "\<forall>pool now n cap mx tmo s0.
            MetaCacheCreate pool now n cap mx tmo = Inr s0 \<longrightarrow> NextItemIndex (MetaCache s0) = 0"
    by (auto simp: MetaCacheCreate_def split: list.splits if_splits)
  ultimately show ?thesis using next_handle_nat [of ?N] conv by blast
qed

theorem handle_allocation_witness:
  "consistent (demo_wrap, []) \<and>
   \<not> unat (ItemSizeMax (MetaCache demo_wrap)) < sizeof_ItemBuffer + unat (1 :: ULONG) \<and>
   Pool demo_wrap = 1 # 11 # [2, 12, 3, 13] \<and> (1 :: ptr) \<noteq> 0 \<and> (11 :: ptr) \<noteq> 0 \<and>
   ItemHeap demo_wrap 1 = None \<and> BufferHeap demo_wrap 11 = None \<and>
   unat (1 :: ULONG) \<le> length [7 :: UINT8] \<and>
   ItemCount (MetaCache demo_wrap) < MetaCapacity (MetaCache demo_wrap) \<and>
   NextItemIndex (MetaCache demo_wrap) = - 1 \<and>
   next_handle (NextItemIndex (MetaCache demo_wrap)) = 1 \<and>
   (\<exists>s'. MetaCacheAddItem [7] 1 demo_wrap = Some (1, s') \<and> NextItemIndex (MetaCache s') = 1)"
proof -
  have h: "\<not> unat (ItemSizeMax (MetaCache demo_wrap)) < sizeof_ItemBuffer + unat (1 :: ULONG)"
    "Pool demo_wrap = 1 # 11 # [2, 12, 3, 13]" "(1 :: ptr) \<noteq> 0" "(11 :: ptr) \<noteq> 0"
    "ItemHeap demo_wrap 1 = None" "BufferHeap demo_wrap 11 = None"
    "unat (1 :: ULONG) \<le> length [7 :: UINT8]"
    "ItemCount (MetaCache demo_wrap) < MetaCapacity (MetaCache demo_wrap)"
    by (simp_all add: demo_wrap_def demo_def demo_pool_def sizeof_ItemBuffer_def)
  have n: "NextItemIndex (MetaCache demo_wrap) = - 1" by (simp add: demo_wrap_def)
  have m: "next_handle (- 1) = 1" by (simp add: next_handle_def unat_max64)
  show ?thesis
    using handle_allocation [OF demo_wrap_consistent h] demo_wrap_consistent h n m by simp
qed

text \<open>
  Claim C4. When \<open>count\<close> equals \<open>capacity\<close>, the size test passes and both allocations
  succeed, \<open>Add\<close> returns the handle 0. The locked section ends with the lock released
  and the item and the buffer still allocated; they are freed after it, and the call
  leaves the state as it found it (two answers of the allocator apart).
\<close>

theorem add_when_full:
  assumes lk: "\<not> SpinLock (MetaCache s)"
    and full: "ItemCount (MetaCache s) = MetaCapacity (MetaCache s)"
    and a: "\<not> unat (ItemSizeMax (MetaCache s)) < sizeof_ItemBuffer + unat Sz"
       "Pool s = p # b # ps" "p \<noteq> 0" "b \<noteq> 0" "ItemHeap s p = None"
       "BufferHeap s b = None" "unat Sz \<le> length Buf"
  shows "MetaCacheAddItem Buf Sz s =
           do {
             (Idx, HasCapacity, s5) \<leftarrow> MetaCacheAddItem_locked p (prepared p b Buf Sz s);
             s6 \<leftarrow> (if \<not> HasCapacity
                    then do { sa \<leftarrow> FspFree_Buffer b s5; FspFree_Item p sa }
                    else Some s5);
             Some (Idx, s6)
           } \<and>
         MetaCacheAddItem_locked p (prepared p b Buf Sz s) = Some (0, False, prepared p b Buf Sz s) \<and>
         \<not> SpinLock (MetaCache (prepared p b Buf Sz s)) \<and>
         ItemHeap (prepared p b Buf Sz s) p \<noteq> None \<and>
         BufferHeap (prepared p b Buf Sz s) b \<noteq> None \<and>
         (FspFree_Buffer b (prepared p b Buf Sz s) \<bind> FspFree_Item p) = Some (s\<lparr>Pool := ps\<rparr>) \<and>
         ItemHeap (s\<lparr>Pool := ps\<rparr>) p = None \<and> BufferHeap (s\<lparr>Pool := ps\<rparr>) b = None \<and>
         MetaCacheAddItem Buf Sz s = Some (0, s\<lparr>Pool := ps\<rparr>)"
proof -
  let ?sp = "prepared p b Buf Sz s"
  have l: "MetaCacheAddItem_locked p ?sp = Some (0, False, ?sp)"
    by (rule add_locked_full) (simp_all add: prepared_def lk full)
  let ?sm = "?sp\<lparr>BufferHeap := (BufferHeap ?sp)(b := None)\<rparr>"
  have f1: "FspFree_Buffer b ?sp = Some ?sm"
    by (simp add: prepared_def FspFree_Buffer_def)
  have f2: "FspFree_Item p ?sm = Some (s\<lparr>Pool := ps\<rparr>)"
    using a(2,5,6) by (simp add: prepared_def FspFree_Item_def fun_upd_idem)
  have f: "(FspFree_Buffer b ?sp \<bind> FspFree_Item p) = Some (s\<lparr>Pool := ps\<rparr>)"
    by (simp only: f1 f2 bind.simps)
  have "MetaCacheAddItem Buf Sz s = Some (0, s\<lparr>Pool := ps\<rparr>)"
    unfolding add_allocated [OF a] l by (simp only: f1 f2 bind.simps prod.case not_False_eq_True if_True)
  with l f add_allocated [OF a] a lk show ?thesis by (simp add: prepared_def)
qed

theorem add_when_full_witness:
  "\<not> SpinLock (MetaCache demo_full) \<and>
   ItemCount (MetaCache demo_full) = MetaCapacity (MetaCache demo_full) \<and>
   \<not> unat (ItemSizeMax (MetaCache demo_full)) < sizeof_ItemBuffer + unat (1 :: ULONG) \<and>
   Pool demo_full = 1 # 11 # [] \<and> (1 :: ptr) \<noteq> 0 \<and> (11 :: ptr) \<noteq> 0 \<and>
   ItemHeap demo_full 1 = None \<and> BufferHeap demo_full 11 = None \<and>
   unat (1 :: ULONG) \<le> length [7 :: UINT8] \<and>
   MetaCacheAddItem_locked 1 (prepared 1 11 [7] 1 demo_full) =
     Some (0, False, prepared 1 11 [7] 1 demo_full) \<and>
   ItemHeap (prepared 1 11 [7] 1 demo_full) 1 \<noteq> None \<and>
   BufferHeap (prepared 1 11 [7] 1 demo_full) 11 \<noteq> None \<and>
   MetaCacheAddItem [7] 1 demo_full = Some (0, demo_full\<lparr>Pool := []\<rparr>)"
proof -
  have h: "\<not> SpinLock (MetaCache demo_full)"
    "ItemCount (MetaCache demo_full) = MetaCapacity (MetaCache demo_full)"
    "\<not> unat (ItemSizeMax (MetaCache demo_full)) < sizeof_ItemBuffer + unat (1 :: ULONG)"
    "Pool demo_full = 1 # 11 # []" "(1 :: ptr) \<noteq> 0" "(11 :: ptr) \<noteq> 0"
    "ItemHeap demo_full 1 = None" "BufferHeap demo_full 11 = None"
    "unat (1 :: ULONG) \<le> length [7 :: UINT8]"
    by (simp_all add: demo_full_def demo_def sizeof_ItemBuffer_def)
  show ?thesis using add_when_full [OF h] h by blast
qed

text \<open>Borrowing the item that was just inserted.\<close>

text \<open>
  Claim C7. For a blob \<open>Buf\<close> of \<open>Sz\<close> bytes: after an \<open>Add\<close> that returned a handle
  \<open>h \<noteq> 0\<close>, \<open>Borrow(h)\<close> returns a pointer that is not null and the size \<open>Sz\<close>, and
  the bytes at the pointer are \<open>Buf\<close>.
\<close>

theorem add_then_borrow:
  assumes ok: "consistent (s, B)" and add: "MetaCacheAddItem Buf Sz s = Some (h, s1)"
    and h: "h \<noteq> 0" and len: "length Buf = unat Sz"
  shows "\<exists>p s2. MetaCacheReferenceItemBuffer h (Some v) s1 = Some (p, Some Sz, s2) \<and>
           p \<noteq> 0 \<and> payload_at p s2 = Some Buf"
proof -
  from ok have lk: "\<not> SpinLock (MetaCache s)" by (simp add: consistent_def)
  from add_nonzero [OF ok add h] obtain p b ps where
    a: "\<not> unat (ItemSizeMax (MetaCache s)) < sizeof_ItemBuffer + unat Sz"
       "Pool s = p # b # ps" "p \<noteq> 0" "b \<noteq> 0" "ItemHeap s p = None"
       "BufferHeap s b = None" "unat Sz \<le> length Buf"
       "ItemCount (MetaCache s) < MetaCapacity (MetaCache s)" by blast
  define Idx where "Idx = (if NextItemIndex (MetaCache s) = - 1 then 1 else NextItemIndex (MetaCache s) + 1)"
  define it where "it = \<lparr>DictNext = ItemBuckets (MetaCache s) ! unat (the (HashIndex_of Idx s)),
     ItemBuffer = b, ItemIndex = Idx,
     ExpirationTime = InterruptTime s + MetaTimeout (MetaCache s), RefCount = 1\<rparr>"
  define buf where "buf = \<lparr>Item = p, Size = Sz, Buffer = take (unat Sz) Buf\<rparr>"
  from add_inserted [OF ok a Idx_def] add obtain hx where
    s1: "h = Idx" "HashIndex_of Idx s = Some hx" "unat hx < length (ItemBuckets (MetaCache s))"
        "MetaCache s1 = (MetaCache s)
                 \<lparr>NextItemIndex := Idx, ItemCount := ItemCount (MetaCache s) + 1,
                  ItemList := ItemList (MetaCache s) @ [p],
                  ItemBuckets := (ItemBuckets (MetaCache s))[unat hx := p]\<rparr>"
        "ItemHeap s1 = (ItemHeap s)(p \<mapsto> it)" "BufferHeap s1 = (BufferHeap s)(b \<mapsto> buf)"
    unfolding it_def buf_def by auto
  define sl where "sl = s1\<lparr>MetaCache := (MetaCache s1)\<lparr>SpinLock := True\<rparr>\<rparr>"
  have acq: "KeAcquireSpinLock s1 = Some sl"
    unfolding sl_def by (rule acquire) (simp add: s1 lk)
  have hs: "HashIndex_of h sl = Some hx"
    using s1(2) HashIndex_of_eq [of sl s Idx] by (simp add: sl_def s1)
  have ld: "load_slot (BucketSlot hx) sl = Some p"
    using s1(3) by (simp add: load_slot_def sl_def s1)
  let ?it = "it\<lparr>RefCount := RefCount it + 1\<rparr>"
  have rs: "reference_scan h p sl = Some (p, sl\<lparr>ItemHeap := (ItemHeap sl)(p \<mapsto> ?it)\<rparr>)"
    using a(3) by (subst reference_scan.simps) (simp add: sl_def s1 it_def)
  define s2 where "s2 = s1\<lparr>ItemHeap := (ItemHeap s1)(p \<mapsto> ?it)\<rparr>"
  have rl: "KeReleaseSpinLock (sl\<lparr>ItemHeap := (ItemHeap sl)(p \<mapsto> ?it)\<rparr>) = Some s2"
    using lk by (simp add: KeReleaseSpinLock_def sl_def s2_def s1)
  have s2: "ItemHeap s2 p = Some ?it" "BufferHeap s2 b = Some buf"
    by (simp_all add: s2_def s1)
  have "MetaCacheReferenceItemBuffer h (Some v) s1 = Some (b + sizeof_ItemBuffer, Some Sz, s2)"
    using a(3) s2 by (simp add: MetaCacheReferenceItemBuffer_def acq hs ld rs rl) (simp add: it_def buf_def)
  moreover have "payload_at (b + sizeof_ItemBuffer) s2 = Some Buf"
    using s2 len by (simp add: payload_at_def buf_def)
  moreover have "b + sizeof_ItemBuffer \<noteq> 0" using a(4) by simp
  ultimately show ?thesis by blast
qed

lemma demo_add: "MetaCacheAddItem [7] 1 demo = Some (1, demo_one)"
  by (simp add: demo_one_def demo_def demo_pool_def eval_defs)

lemma demo_one_reachable: "reachable (demo_one, [])"
  by (rule reachable.called [OF demo_reachable, of "Add [7] 1"]) (simp add: demo_add)

theorem add_then_borrow_witness:
  "consistent (demo, []) \<and> MetaCacheAddItem [7] 1 demo = Some (1, demo_one) \<and>
   (1 :: UINT64) \<noteq> 0 \<and> length [7 :: UINT8] = unat (1 :: ULONG) \<and>
   (\<exists>p s2. MetaCacheReferenceItemBuffer 1 (Some 0) demo_one = Some (p, Some 1, s2) \<and>
            p \<noteq> 0 \<and> payload_at p s2 = Some [7])"
proof -
  have c: "consistent (demo, [])" by (rule reachable_wf [OF demo_reachable])
  have h: "(1 :: UINT64) \<noteq> 0" "length [7 :: UINT8] = unat (1 :: ULONG)" by simp_all
  show ?thesis using add_then_borrow [OF c demo_add h, of 0] c demo_add h by blast
qed

subsection \<open>Counts, the full drain and lifetimes\<close>

lemma those_map_Some: "those (map Some ys) = Some ys"
  by (induction ys) auto

text \<open>The chains together are as long as the list.\<close>

lemma struct_ok_total:
  assumes st: "struct_ok n bk cnt L h"
  shows "those (map (chain_length h) bk) =
           Some (map (\<lambda>i. card {p \<in> set L. \<exists>it. h p = Some it \<and> unat (ItemIndex it) mod unat n = i})
                   [0..<length bk])"
    and "(\<Sum>i \<leftarrow> [0..<length bk].
            card {p \<in> set L. \<exists>it. h p = Some it \<and> unat (ItemIndex it) mod unat n = i}) = length L"
proof -
  let ?S = "\<lambda>i. {p \<in> set L. \<exists>it. h p = Some it \<and> unat (ItemIndex it) mod unat n = i}"
  from st have n0: "n \<noteq> 0" and len: "length bk = unat n"
    and dL: "distinct L" and live: "\<forall>q \<in> set L. h q \<noteq> None"
    and bks: "\<forall>j < length bk. bucket_ok (unat n) L h j (bk ! j)"
    unfolding struct_ok_def by auto
  have "chain_length h (bk ! i) = Some (card (?S i))" if "i < length bk" for i
  proof -
    from bks that obtain xs where xs: "chain h (bk ! i) xs" "distinct xs" "set xs = ?S i"
      unfolding bucket_ok_def by blast
    from xs(2,3) have "length xs = card (?S i)" by (metis distinct_card)
    with chain_length_chain [OF xs(1)] show ?thesis by simp
  qed
  then have "map (chain_length h) bk = map Some (map (\<lambda>i. card (?S i)) [0..<length bk])"
    by (intro nth_equalityI) simp_all
  then show "those (map (chain_length h) bk) = Some (map (\<lambda>i. card (?S i)) [0..<length bk])"
    by (simp only: those_map_Some)
  define g where "g p = unat (ItemIndex (the (h p))) mod unat n" for p
  have S: "?S i = {p \<in> set L. g p = i}" for i
    using live by (auto simp: g_def)
  have npos: "0 < unat n" using n0 by (simp add: unat_gt_0)
  have img: "g ` set L \<subseteq> {0..<length bk}" using npos len by (auto simp: g_def)
  have "(\<Sum>i \<leftarrow> [0..<length bk]. card (?S i)) = (\<Sum>i \<in> {0..<length bk}. card {p \<in> set L. g p = i})"
    by (simp add: S interv_sum_list_conv_sum_set_nat)
  also have "\<dots> = (\<Sum>i \<in> {0..<length bk}. \<Sum>p \<in> {p \<in> set L. g p = i}. 1)"
    by simp
  also have "\<dots> = (\<Sum>p \<in> set L. 1)"
    by (rule sum.group) (use img in auto)
  also have "\<dots> = length L" using dL by (simp add: distinct_card)
  finally show "(\<Sum>i \<leftarrow> [0..<length bk]. card (?S i)) = length L" .
qed

lemma consistent_total:
  assumes "consistent (s, B)"
  shows "unat (ItemCount (MetaCache s)) = length (ItemList (MetaCache s)) \<and>
         bucket_total s = Some (length (ItemList (MetaCache s)))"
proof -
  from assms have st: "struct_ok (ItemBucketCount (MetaCache s)) (ItemBuckets (MetaCache s))
       (ItemCount (MetaCache s)) (ItemList (MetaCache s)) (ItemHeap s)"
    by (simp add: consistent_def struct_wf_def)
  from struct_ok_total [OF st] st show ?thesis
    by (simp add: bucket_total_def struct_ok_def)
qed

text \<open>
  Claim C5. In every reachable state, \<open>count\<close> equals the number of entries on the
  insertion-ordered list and the total number of entries across all bucket chains;
  every call (\<open>Add\<close>, \<open>Invalidate\<close>, \<open>InvalidateExpired\<close>, \<open>InvalidateAll\<close> among them)
  leads to a state where the equality holds again.
\<close>

theorem count_invariant:
  assumes "reachable (s, B)"
  shows "unat (ItemCount (MetaCache s)) = length (ItemList (MetaCache s)) \<and>
         bucket_total s = Some (length (ItemList (MetaCache s))) \<and>
         (\<forall>c s' B'. exec c (s, B) = Some (s', B') \<longrightarrow>
            unat (ItemCount (MetaCache s')) = length (ItemList (MetaCache s')) \<and>
            bucket_total s' = Some (length (ItemList (MetaCache s'))))"
proof -
  have "consistent (s, B)" using assms by (rule reachable_wf)
  moreover have "consistent (s', B')" if "exec c (s, B) = Some (s', B')" for c s' B'
    using reachable_wf [OF reachable.called [OF assms that]] .
  ultimately show ?thesis using consistent_total by blast
qed

lemma struct_ok_empty:
  assumes "struct_ok n bk cnt [] h"
  shows "cnt = 0 \<and> (\<forall>x \<in> set bk. x = 0)"
proof -
  from assms have cnt: "unat cnt = 0"
    and bks: "\<forall>j < length bk. bucket_ok (unat n) [] h j (bk ! j)"
    unfolding struct_ok_def by auto
  have "bk ! j = 0" if "j < length bk" for j
  proof -
    from bks that obtain xs where "chain h (bk ! j) xs" "set xs = {}"
      unfolding bucket_ok_def by auto
    then show ?thesis by simp
  qed
  then have "\<forall>x \<in> set bk. x = 0" by (auto simp: in_set_conv_nth)
  with cnt show ?thesis by (simp add: unat_eq_0)
qed

text \<open>
  Claim C8. \<open>InvalidateAll\<close> is the loop of the expiry sweep, run with the threshold
  \<open>2\<^sup>6\<^sup>4 - 1\<close>, the greatest tick value, so that the expiration time of every entry is
  at most the threshold; in a consistent state it returns, and then the cache is
  empty: \<open>count\<close> is zero, the list is empty and every bucket is null.
\<close>

theorem invalidate_all_empties:
  assumes "consistent (s, B)"
  shows "MetaCacheInvalidateAll s = MetaCacheInvalidateItems (- 1) s \<and>
         MetaCacheInvalidateExpired s = MetaCacheInvalidateItems (KeQueryInterruptTime s) s \<and>
         unat (- 1 :: UINT64) = 2 ^ 64 - 1 \<and>
         (\<forall>it. ExpirationTime it \<le> - 1) \<and>
         (\<exists>s'. MetaCacheInvalidateAll s = Some s' \<and>
               ItemCount (MetaCache s') = 0 \<and> ItemList (MetaCache s') = [] \<and>
               length (ItemBuckets (MetaCache s')) = length (ItemBuckets (MetaCache s)) \<and>
               (\<forall>x \<in> set (ItemBuckets (MetaCache s')). x = 0))"
proof -
  from sweep_wf [OF assms, of "- 1"] obtain s' where
    s': "MetaCacheInvalidateItems (- 1) s = Some s'" "consistent (s', B)" "shrinks s s'"
      "case ItemList (MetaCache s') of [] \<Rightarrow> True
            | e # _ \<Rightarrow> \<exists>it. ItemHeap s' e = Some it \<and> \<not> ExpirationTime it \<le> - 1" by blast
  have e: "ItemList (MetaCache s') = []" using s'(4) by (cases "ItemList (MetaCache s')") auto
  from s'(2) assms have st: "struct_wf s'" "struct_wf s" by (simp_all add: consistent_def)
  from st(1) [unfolded struct_wf_def e] have
    "ItemCount (MetaCache s') = 0 \<and> (\<forall>x \<in> set (ItemBuckets (MetaCache s')). x = 0)"
    by (rule struct_ok_empty)
  moreover have "length (ItemBuckets (MetaCache s')) = length (ItemBuckets (MetaCache s))"
    using st s'(3) by (simp add: struct_wf_def struct_ok_def shrinks_def)
  ultimately show ?thesis using s'(1) e unat_max64
    by (simp add: MetaCacheInvalidateAll_def MetaCacheInvalidateExpired_def)
qed

text \<open>What one call leaves of the state.\<close>

lemma exec_frame:
  assumes ok: "consistent (s, B)" and step: "exec c (s, B) = Some (s', B')"
  shows "shrinks s s' \<or> grows s s' \<or>
         (MetaCache s' = MetaCache s \<and> ItemHeap s' = ItemHeap s \<and> BufferHeap s' = BufferHeap s \<and>
          unat (InterruptTime s) \<le> unat (InterruptTime s'))"
proof (cases c)
  case (Add Buf Sz)
  with step obtain r where "MetaCacheAddItem Buf Sz s = Some (r, s')" by auto
  with add_wf [OF ok] show ?thesis by blast
next
  case (Borrow Idx PSize)
  with step have b: "length B + 2 < 2 ^ 32" by (auto split: if_splits)
  from borrow_wf [OF ok b, of Idx PSize] step Borrow b show ?thesis by auto
next
  case (Return x)
  with step have x: "x \<in> set B" by (auto split: if_splits)
  from return_wf [OF ok x] step Return x show ?thesis by auto
next
  case (Invalidate Idx)
  from invalidate_wf [OF ok, of Idx] step Invalidate show ?thesis by auto
next
  case InvalidateExpired
  from sweep_wf [OF ok, of "KeQueryInterruptTime s"] step InvalidateExpired
  show ?thesis by (auto simp: MetaCacheInvalidateExpired_def)
next
  case InvalidateAll
  from sweep_wf [OF ok, of "- 1"] step InvalidateAll
  show ?thesis by (auto simp: MetaCacheInvalidateAll_def)
next
  case (Tick d)
  with step have "unat (InterruptTime s) + unat d < 2 ^ 64"
    "s' = s\<lparr>InterruptTime := InterruptTime s + d\<rparr>" by (auto split: if_splits)
  then have "unat (InterruptTime s') = unat (InterruptTime s) + unat d"
    by (simp add: unat_word_ariths)
  with \<open>s' = _\<close> show ?thesis by simp
qed

text \<open>In all three cases an item that stays keeps its buffer, and a buffer that
  stays keeps its contents.\<close>

lemma exec_keeps:
  assumes ok: "consistent (s, B)" and step: "exec c (s, B) = Some (s', B')"
  shows "(\<forall>a it it'. ItemHeap s a = Some it \<longrightarrow> ItemHeap s' a = Some it' \<longrightarrow>
            ItemBuffer it' = ItemBuffer it) \<and>
         (\<forall>q b b'. BufferHeap s q = Some b \<longrightarrow> BufferHeap s' q = Some b' \<longrightarrow> b' = b)"
  using exec_frame [OF ok step] unfolding shrinks_def grows_def
  by (elim disjE) (fastforce+)

text \<open>
  Claim C1. \<open>MetaCacheDereferenceItem\<close>, the one place where an entry is released,
  frees the entry and its buffer when the decremented count is zero and otherwise
  only stores the decremented count. The reference count of an entry is the number of
  its holders: the cache
  while the entry is on its list, and every outstanding borrow. For every entry that
  exists when a call starts: if after the call no holder is left (the count has
  dropped to zero), the entry and its buffer are freed; otherwise both still exist,
  the entry has the same buffer, the buffer is unchanged (owner, size and payload
  bytes), and the count is the number of holders that are left. So an entry that
  \<open>Invalidate\<close>, the expiry sweep or the full drain has taken off the cache stays,
  with its payload, while a borrow is outstanding, and the last \<open>Return\<close> frees it.
  The clients keep fewer than \<open>2\<^sup>3\<^sup>2 - 2\<close> borrows outstanding and return only what they
  have borrowed (\<open>exec\<close>).
\<close>

theorem entry_lifetime:
  assumes ok: "consistent (s, B)" and step: "exec c (s, B) = Some (s', B')"
    and live: "ItemHeap s a = Some it"
  shows "MetaCacheDereferenceItem a s =
           Some (if RefCount it - 1 = 0
                 then s\<lparr>ItemHeap := (ItemHeap s)(a := None),
                        BufferHeap := (BufferHeap s)(ItemBuffer it := None)\<rparr>
                 else s\<lparr>ItemHeap := (ItemHeap s)(a \<mapsto> it\<lparr>RefCount := RefCount it - 1\<rparr>)\<rparr>) \<and>
         (\<exists>buf. BufferHeap s (ItemBuffer it) = Some buf \<and> Item buf = a \<and>
           unat (RefCount it) = holders (ItemList (MetaCache s)) B a it \<and>
           (if holders (ItemList (MetaCache s')) B' a it = 0
            then ItemHeap s' a = None \<and> BufferHeap s' (ItemBuffer it) = None
            else \<exists>it'. ItemHeap s' a = Some it' \<and> ItemBuffer it' = ItemBuffer it \<and>
                   unat (RefCount it') = holders (ItemList (MetaCache s')) B' a it \<and>
                   BufferHeap s' (ItemBuffer it) = Some buf))"
proof -
  let ?L = "ItemList (MetaCache s)" and ?L' = "ItemList (MetaCache s')"
  have ok': "consistent (s', B')" using exec_wf [OF ok step] .
  from ok have st: "struct_ok (ItemBucketCount (MetaCache s)) (ItemBuckets (MetaCache s))
       (ItemCount (MetaCache s)) ?L (ItemHeap s)"
    and hi: "heap_ok 0 ?L (ItemHeap s) (BufferHeap s) B"
    by (simp_all add: consistent_def struct_wf_def heap_inv_def)
  from ok' have st': "struct_ok (ItemBucketCount (MetaCache s')) (ItemBuckets (MetaCache s'))
       (ItemCount (MetaCache s')) ?L' (ItemHeap s')"
    and hi': "heap_ok 0 ?L' (ItemHeap s') (BufferHeap s') B'"
    by (simp_all add: consistent_def struct_wf_def heap_inv_def)
  note keep = exec_keeps [OF ok step]
  have a0: "a \<noteq> 0" using st live by (rule live_not_null)
  from hi live a0 obtain buf where buf: "BufferHeap s (ItemBuffer it) = Some buf" "Item buf = a"
    and rc: "unat (RefCount it) = holders ?L B a it"
    unfolding heap_ok_def by fastforce
  have "if holders ?L' B' a it = 0
        then ItemHeap s' a = None \<and> BufferHeap s' (ItemBuffer it) = None
        else \<exists>it'. ItemHeap s' a = Some it' \<and> ItemBuffer it' = ItemBuffer it \<and>
               unat (RefCount it') = holders ?L' B' a it \<and>
               BufferHeap s' (ItemBuffer it) = Some buf"
  proof (cases "ItemHeap s' a")
    case None
    have nb: "BufferHeap s' (ItemBuffer it) = None"
    proof (rule ccontr)
      assume "BufferHeap s' (ItemBuffer it) \<noteq> None"
      then obtain b' where b': "BufferHeap s' (ItemBuffer it) = Some b'" by auto
      with keep buf have "b' = buf" by blast
      with hi' b' buf(2) have "ItemHeap s' a \<noteq> None" unfolding heap_ok_def by fastforce
      with None show False by simp
    qed
    have "a \<notin> set ?L'" using st' None by (auto simp: struct_ok_def)
    moreover have "ItemBuffer it + sizeof_ItemBuffer \<notin> set B'"
    proof
      assume "ItemBuffer it + sizeof_ItemBuffer \<in> set B'"
      with hi' have "BufferHeap s' (ItemBuffer it + sizeof_ItemBuffer - sizeof_ItemBuffer) \<noteq> None"
        unfolding heap_ok_def by blast
      with nb show False by simp
    qed
    ultimately have "holders ?L' B' a it = 0" by (simp add: holders_def count_list_0_iff)
    with None nb show ?thesis by simp
  next
    case (Some it')
    with keep live have ib: "ItemBuffer it' = ItemBuffer it" by blast
    from hi' Some a0 obtain b' where b': "BufferHeap s' (ItemBuffer it') = Some b'"
      and rc': "unat (RefCount it') = holders ?L' B' a it'" and nz: "RefCount it' \<noteq> 0"
      unfolding heap_ok_def by fastforce
    from keep buf b' ib have "b' = buf" by auto
    moreover have h: "holders ?L' B' a it' = holders ?L' B' a it" by (simp add: holders_def ib)
    moreover have "holders ?L' B' a it \<noteq> 0"
    proof
      assume "holders ?L' B' a it = 0"
      with rc' h have "unat (RefCount it') = 0" by simp
      with nz show False by (simp add: unat_eq_0)
    qed
    ultimately show ?thesis using Some ib rc' b' by simp
  qed
  moreover have "BufferHeap s (ItemBuffer it) \<noteq> None" using buf by simp
  note deref_result [OF live this]
  ultimately show ?thesis using buf rc by blast
qed

lemma expirations_live:
  "\<forall>p \<in> set L. h p \<noteq> None \<Longrightarrow>
   those (map (\<lambda>p. map_option ExpirationTime (h p)) L) =
     Some (map (\<lambda>p. ExpirationTime (the (h p))) L)"
  by (induction L) auto

lemma demo_borrow: "exec (Borrow 1 None) (demo_one, []) = Some (demo_two, [27])"
  apply (simp add: demo_two_def demo_one_def demo_def demo_pool_def eval_defs reference_scan.simps)
  done

lemma demo_drain: "exec InvalidateAll (demo_two, [27]) = Some (demo_held, [27])"
  apply (simp add: demo_two_def demo_held_def demo_one_def demo_def demo_pool_def eval_defs)
  apply (subst MetaCacheInvalidateItems.simps)
  apply (simp add: demo_two_def demo_held_def demo_one_def demo_def demo_pool_def eval_defs unlink_item.simps)
  apply (subst MetaCacheInvalidateItems.simps)
  apply (simp add: demo_two_def demo_held_def demo_one_def demo_def demo_pool_def eval_defs unlink_item.simps)
  done

lemma demo_return: "exec (Return 27) (demo_held, [27]) = Some (demo_gone, [])"
  apply (simp add: demo_gone_def demo_held_def demo_one_def demo_def demo_pool_def eval_defs)
  done

lemma demo_held_reachable: "reachable (demo_held, [27])"
  by (rule reachable.called [OF reachable.called [OF demo_one_reachable demo_borrow] demo_drain])

text \<open>The entry of \<open>demo_one\<close> was borrowed and then drained from the cache: it is still
  there for the borrower (\<open>demo_held\<close>), and the return of the borrow frees it.\<close>

theorem entry_lifetime_witness:
  "consistent (demo_held, [27]) \<and>
   exec (Return 27) (demo_held, [27]) = Some (demo_gone, []) \<and>
   ItemHeap demo_held 1 =
     Some \<lparr>DictNext = 0, ItemBuffer = 11, ItemIndex = 1, ExpirationTime = 100, RefCount = 1\<rparr> \<and>
   ItemList (MetaCache demo_held) = [] \<and>
   payload_at 27 demo_held = Some [7] \<and>
   ItemHeap demo_gone 1 = None \<and> BufferHeap demo_gone 11 = None"
proof -
  have c: "consistent (demo_held, [27])" by (rule reachable_wf [OF demo_held_reachable])
  have l: "ItemHeap demo_held 1 =
     Some \<lparr>DictNext = 0, ItemBuffer = 11, ItemIndex = 1, ExpirationTime = 100, RefCount = 1\<rparr>"
    by (simp add: demo_held_def)
  have h: "holders (ItemList (MetaCache demo_gone)) [] 1
     \<lparr>DictNext = 0, ItemBuffer = 11, ItemIndex = 1, ExpirationTime = 100, RefCount = 1\<rparr> = 0"
    by (simp add: holders_def demo_gone_def demo_held_def)
  have p: "ItemList (MetaCache demo_held) = []" "payload_at 27 demo_held = Some [7]"
    by (simp_all add: demo_held_def demo_one_def payload_at_def sizeof_ItemBuffer_def)
  show ?thesis
    using entry_lifetime [OF c demo_return l] c demo_return l p unfolding h by auto
qed

theorem count_invariant_witness:
  "reachable (demo_one, []) \<and>
   unat (ItemCount (MetaCache demo_one)) = length (ItemList (MetaCache demo_one)) \<and>
   bucket_total demo_one = Some (length (ItemList (MetaCache demo_one))) \<and>
   length (ItemList (MetaCache demo_one)) = 1"
  using count_invariant [OF demo_one_reachable] demo_one_reachable
  by (simp add: demo_one_def)

theorem invalidate_all_empties_witness:
  "consistent (demo_two, [27]) \<and>
   MetaCacheInvalidateAll demo_two = Some demo_held \<and>
   ItemCount (MetaCache demo_held) = 0 \<and> ItemList (MetaCache demo_held) = [] \<and>
   ItemBuckets (MetaCache demo_held) = [0, 0] \<and>
   (\<exists>s'. MetaCacheInvalidateAll demo_two = Some s' \<and>
         ItemCount (MetaCache s') = 0 \<and> ItemList (MetaCache s') = [] \<and>
         (\<forall>x \<in> set (ItemBuckets (MetaCache s')). x = 0))"
proof -
  have c: "consistent (demo_two, [27])"
    by (rule reachable_wf [OF reachable.called [OF demo_one_reachable demo_borrow]])
  have d: "MetaCacheInvalidateAll demo_two = Some demo_held" using demo_drain by auto
  have e: "ItemCount (MetaCache demo_held) = 0" "ItemList (MetaCache demo_held) = []"
    "ItemBuckets (MetaCache demo_held) = [0, 0]" by (simp_all add: demo_held_def)
  from invalidate_all_empties [OF c]
  have x: "\<exists>s'. MetaCacheInvalidateAll demo_two = Some s' \<and>
         ItemCount (MetaCache s') = 0 \<and> ItemList (MetaCache s') = [] \<and>
         (\<forall>x \<in> set (ItemBuckets (MetaCache s')). x = 0)" by blast
  show ?thesis using c d e x by blast
qed

lemma late_created: "MetaCacheCreate (100 # demo_pool) 5 2 2 4096 (- 10) = Inr late_demo"
  by (simp add: MetaCacheCreate_def late_demo_def demo_def replicate_2)

lemma late_run: "run [Add [] 0, Tick 15, Add [] 0] (late_demo, []) = Some (late_two, [])"
  apply (simp add: late_two_def late_demo_def demo_def demo_pool_def eval_defs)
  done

lemma late_reachable: "reachable (late_two, [])"
  by (rule run_reachable [OF reachable.created [OF _ late_created] late_run]) simp

subsection \<open>Calls that overlap\<close>

lemmas ceval_defs = MetaCacheAddItem_unlocked_def MetaCacheAddItem_rest_def
  MetaCacheInvalidateItem_locked_def

lemma race_run:
  "crun [Enter (Add [] 0), Enter (Tick 20), Enter (Add [] 0), Resume (Adding 2 12),
         Resume (Adding 1 11)] (demo, [], []) = Some (race_two, [], [])"
  apply (simp add: race_two_def demo_def demo_pool_def eval_defs ceval_defs)
  done

text \<open>The sections of a call, run one after the other, are the call.\<close>

lemma MetaCacheAddItem_split:
  "MetaCacheAddItem Buf Sz s =
     do {
       (r, s1) \<leftarrow> MetaCacheAddItem_unlocked Buf Sz s;
       case r of None \<Rightarrow> Some (0, s1) | Some (p, b) \<Rightarrow> MetaCacheAddItem_rest p b s1
     }"
  unfolding MetaCacheAddItem_def MetaCacheAddItem_unlocked_def MetaCacheAddItem_rest_def
  by (auto simp: Let_def split: option.splits prod.splits bind_splits)

lemma MetaCacheInvalidateItem_split:
  "MetaCacheInvalidateItem Idx s =
     do {
       (p, s3) \<leftarrow> MetaCacheInvalidateItem_locked Idx s;
       if p \<noteq> 0 then MetaCacheDereferenceItem p s3 else Some s3
     }"
  unfolding MetaCacheInvalidateItem_def MetaCacheInvalidateItem_locked_def
  by (auto simp: Let_def split: option.splits prod.splits bind_splits)

lemma refs_Cons: "refs (t # T) = ref_of t @ refs T"
  by (simp add: refs_def)

lemma count_refs_remove1:
  "t \<in> set T \<Longrightarrow>
   count_list (refs (remove1 t T)) y + count_list (ref_of t) y = count_list (refs T) y"
  by (induction T) (auto simp: refs_Cons)

lemma ref_of_refs: "t \<in> set T \<Longrightarrow> x \<in> set (ref_of t) \<Longrightarrow> x \<in> set (refs T)"
  by (auto simp: refs_def)

lemma length_refs: "length (refs T) \<le> length T"
proof (induction T)
  case Nil
  then show ?case by (simp add: refs_def)
next
  case (Cons t T)
  then show ?case by (cases t) (simp_all add: refs_Cons)
qed

lemma set_count_list:
  assumes "\<forall>y. count_list G y = count_list G' y"
  shows "set G = set G'"
proof -
  have "y \<in> set G \<longleftrightarrow> y \<in> set G'" for y
    using assms count_list_0_iff [of G y] count_list_0_iff [of G' y] by metis
  then show ?thesis by blast
qed

lemma consistent_count:
  assumes "consistent (s, G)" and "\<forall>y. count_list G y = count_list G' y"
  shows "consistent (s, G')"
proof -
  have "set G = set G'" using assms(2) by (rule set_count_list)
  then show ?thesis
    using assms unfolding consistent_def heap_inv_def heap_ok_def holders_def by simp
qed

text \<open>A reference that a call in flight holds on an item counts like a borrow of its
  payload.\<close>

lemma held_borrowed:
  assumes lk: "\<not> SpinLock (MetaCache s)" and st: "struct_wf s" and hi: "heap_inv p (s, G)"
    and it: "ItemHeap s p = Some it"
  shows "consistent (s, (ItemBuffer it + sizeof_ItemBuffer) # G)"
proof -
  let ?L = "ItemList (MetaCache s)" and ?h = "ItemHeap s" and ?bh = "BufferHeap s"
  let ?G = "(ItemBuffer it + sizeof_ItemBuffer) # G"
  note hi' = hi [unfolded heap_inv_def fst_conv snd_conv]
  have p0: "p \<noteq> 0" using st it unfolding struct_wf_def by (rule live_not_null)
  have "heap_ok 0 ?L ?h ?bh ?G"
    unfolding heap_ok_def
  proof (intro conjI allI impI ballI)
    fix q itq assume q: "?h q = Some itq"
    with hi' have a: "\<exists>b. ?bh (ItemBuffer itq) = Some b \<and> Item b = q \<and> unat (Size b) = length (Buffer b)"
      and r: "unat (RefCount itq) = holders ?L G q itq + (if q = p then 1 else 0)"
      and nz: "RefCount itq \<noteq> 0" unfolding heap_ok_def by auto
    show "\<exists>b. ?bh (ItemBuffer itq) = Some b \<and> Item b = q \<and> unat (Size b) = length (Buffer b)"
      by (rule a)
    show "RefCount itq \<noteq> 0" by (rule nz)
    have q0: "q \<noteq> 0" using st q unfolding struct_wf_def by (rule live_not_null)
    show "unat (RefCount itq) = holders ?L ?G q itq + (if q = 0 then 1 else 0)"
    proof (cases "q = p")
      case True
      with q it have "itq = it" by simp
      then show ?thesis using r q0 True by (simp add: holders_cons)
    next
      case False
      have "ItemBuffer itq \<noteq> ItemBuffer it"
        using heap_ok_buffer_inj [OF hi' q it] False by blast
      then show ?thesis using r q0 False by (simp add: holders_cons)
    qed
  next
    fix q bq assume "?bh q = Some bq"
    with hi' show "\<exists>it. ?h (Item bq) = Some it \<and> ItemBuffer it = q"
      unfolding heap_ok_def by blast
  next
    fix y assume "y \<in> set ?G"
    then consider "y = ItemBuffer it + sizeof_ItemBuffer" | "y \<in> set G" by auto
    then have "sizeof_ItemBuffer \<le> y \<and> ?bh (y - sizeof_ItemBuffer) \<noteq> None"
    proof cases
      case 1
      from hi' it have "?bh (ItemBuffer it) \<noteq> None" unfolding heap_ok_def by fastforce
      with 1 show ?thesis by simp
    next
      case 2
      with hi' show ?thesis unfolding heap_ok_def by auto
    qed
    then show "sizeof_ItemBuffer \<le> y" "?bh (y - sizeof_ItemBuffer) \<noteq> None" by simp_all
  qed
  then show ?thesis using lk st by (simp add: consistent_def heap_inv_def)
qed

text \<open>The release of such a reference is the return of that borrow.\<close>

lemma deref_held:
  assumes ok: "consistent (s, G)" and it: "ItemHeap s p = Some it"
    and x: "ItemBuffer it + sizeof_ItemBuffer \<in> set G"
  shows "\<exists>s'. MetaCacheDereferenceItem p s = Some s' \<and>
           consistent (s', remove1 (ItemBuffer it + sizeof_ItemBuffer) G) \<and> shrinks s s'"
proof -
  from ok have hi: "heap_ok 0 (ItemList (MetaCache s)) (ItemHeap s) (BufferHeap s) G"
    by (simp add: consistent_def heap_inv_def)
  from hi it obtain b where b: "BufferHeap s (ItemBuffer it) = Some b" "Item b = p"
    unfolding heap_ok_def by fastforce
  have "MetaCacheDereferenceItemBuffer (ItemBuffer it + sizeof_ItemBuffer) s =
          MetaCacheDereferenceItem p s"
    using b by (simp add: MetaCacheDereferenceItemBuffer_def)
  with return_wf [OF ok x] show ?thesis by simp
qed

lemma shrinks_keeps: "shrinks s s' \<Longrightarrow> keeps s s'"
  unfolding shrinks_def keeps_def by fastforce

lemma keep_live:
  assumes ok: "consistent (s, G)" and ok': "consistent (s', G')" and k: "keeps s s'"
    and it: "ItemHeap s p = Some it" and x: "ItemBuffer it + sizeof_ItemBuffer \<in> set G'"
  shows "\<exists>it'. ItemHeap s' p = Some it' \<and> ItemBuffer it' = ItemBuffer it"
proof -
  from ok have hi: "heap_ok 0 (ItemList (MetaCache s)) (ItemHeap s) (BufferHeap s) G"
    by (simp add: consistent_def heap_inv_def)
  from ok' have hi': "heap_ok 0 (ItemList (MetaCache s')) (ItemHeap s') (BufferHeap s') G'"
    by (simp add: consistent_def heap_inv_def)
  from hi it obtain b where b: "BufferHeap s (ItemBuffer it) = Some b" "Item b = p"
    unfolding heap_ok_def by fastforce
  from hi' x obtain b' where b': "BufferHeap s' (ItemBuffer it) = Some b'"
    unfolding heap_ok_def by fastforce
  from k b(1) b' have "Item b' = Item b" unfolding keeps_def by blast
  moreover from hi' b' have "\<exists>it'. ItemHeap s' (Item b') = Some it' \<and> ItemBuffer it' = ItemBuffer it"
    unfolding heap_ok_def by blast
  ultimately show ?thesis using b(2) by simp
qed

lemma dropping_keep:
  assumes ok: "consistent (s, G)" and ok': "consistent (s', G')" and k: "keeps s s'"
    and t: "task_ok s (Dropping p b e)" and x: "b + sizeof_ItemBuffer \<in> set G'"
  shows "task_ok s' (Dropping p b e)"
proof -
  from t obtain it where it: "ItemHeap s p = Some it" "ItemBuffer it = b"
    by (auto split: option.splits)
  from keep_live [OF ok ok' k it(1)] x it(2) show ?thesis by auto
qed

lemma unat_one_32: "unat (w :: 32 word) = 1 \<Longrightarrow> w = 1"
  by (metis unat_1 word_unat_eq_iff)

lemma adding_count:
  assumes ok: "consistent (s, G)" and t: "task_ok s (Adding p b)"
  shows "count_list G (b + sizeof_ItemBuffer) = 1"
proof -
  from t obtain it where it: "ItemHeap s p = Some it" "ItemBuffer it = b" "RefCount it = 1"
    "p \<notin> set (ItemList (MetaCache s))" by (auto split: option.splits)
  from ok have hi: "heap_ok 0 (ItemList (MetaCache s)) (ItemHeap s) (BufferHeap s) G"
    and st: "struct_wf s" by (simp_all add: consistent_def heap_inv_def)
  have p0: "p \<noteq> 0" using st it(1) unfolding struct_wf_def by (rule live_not_null)
  from hi it(1) have "unat (RefCount it) = holders (ItemList (MetaCache s)) G p it + (if p = 0 then 1 else 0)"
    unfolding heap_ok_def by blast
  with it p0 show ?thesis by (simp add: holders_def)
qed

lemma adding_keep:
  assumes ok: "consistent (s, G)" and ok': "consistent (s', G')" and k: "keeps s s'"
    and t: "task_ok s (Adding p b)" and x: "b + sizeof_ItemBuffer \<in> set G'"
    and c: "count_list G' (b + sizeof_ItemBuffer) \<le> count_list G (b + sizeof_ItemBuffer)"
    and l: "p \<notin> set (ItemList (MetaCache s'))"
  shows "task_ok s' (Adding p b)"
proof -
  from t obtain it where it: "ItemHeap s p = Some it" "ItemBuffer it = b" "RefCount it = 1"
    by (auto split: option.splits)
  from keep_live [OF ok ok' k it(1)] x it(2) obtain it' where
    it': "ItemHeap s' p = Some it'" "ItemBuffer it' = b" by auto
  from ok' have hi': "heap_ok 0 (ItemList (MetaCache s')) (ItemHeap s') (BufferHeap s') G'"
    and st': "struct_wf s'" by (simp_all add: consistent_def heap_inv_def)
  have p0: "p \<noteq> 0" using st' it'(1) unfolding struct_wf_def by (rule live_not_null)
  from hi' it'(1) have r: "unat (RefCount it') = holders (ItemList (MetaCache s')) G' p it' + (if p = 0 then 1 else 0)"
    and nz: "RefCount it' \<noteq> 0"
    unfolding heap_ok_def by blast+
  have "count_list G' (b + sizeof_ItemBuffer) \<le> 1" using c adding_count [OF ok t] by simp
  moreover have "count_list G' (b + sizeof_ItemBuffer) \<noteq> 0" using x by (simp add: count_list_0_iff)
  ultimately have "unat (RefCount it') = 1" using r p0 l it'(2) by (simp add: holders_def)
  then have "RefCount it' = 1" by (rule unat_one_32)
  with it' l show ?thesis by simp
qed

text \<open>The locked part of a removal and the release of the lock: the caller now holds
  the reference that was the reference of the cache.\<close>

lemma remove_locked_wf:
  assumes lk: "SpinLock (MetaCache s)" and st: "struct_wf s" and hi: "heap_inv 0 (s, B)"
    and it: "ItemHeap s p = Some itp" and pL: "p \<in> set (ItemList (MetaCache s))"
    and hx: "unat hi = unat (ItemIndex itp) mod unat (ItemBucketCount (MetaCache s))"
    and ch: "chain (ItemHeap s) (ItemBuckets (MetaCache s) ! unat hi) (ys @ p # zs)"
  shows "\<exists>s1 s3.
          store_slot (if ys = [] then BucketSlot hi else DictNextSlot (last ys)) (DictNext itp) s
            = Some s1 \<and>
          KeReleaseSpinLock (s1\<lparr>MetaCache := (MetaCache s1)
                         \<lparr>ItemList := remove1 p (ItemList (MetaCache s1)),
                          ItemCount := ItemCount (MetaCache s1) - 1\<rparr>\<rparr>) = Some s3 \<and>
          consistent (s3, (ItemBuffer itp + sizeof_ItemBuffer) # B) \<and>
          ItemHeap s3 p = Some itp \<and> shrinks s s3 \<and>
          ItemList (MetaCache s3) = remove1 p (ItemList (MetaCache s))"
proof -
  from unlink_wf [OF st hi it pL hx ch] obtain s1 where
    s1: "store_slot (if ys = [] then BucketSlot hi else DictNextSlot (last ys)) (DictNext itp) s
            = Some s1"
    and s2: "let s2 = s1\<lparr>MetaCache := (MetaCache s1)
                         \<lparr>ItemList := remove1 p (ItemList (MetaCache s1)),
                          ItemCount := ItemCount (MetaCache s1) - 1\<rparr>\<rparr>
           in struct_wf s2 \<and> heap_inv p (s2, B) \<and> ItemHeap s2 p = Some itp \<and> shrinks s s2 \<and>
              ItemList (MetaCache s2) = remove1 p (ItemList (MetaCache s)) \<and>
              SpinLock (MetaCache s2) = SpinLock (MetaCache s)" by blast
  define s2 where "s2 = s1\<lparr>MetaCache := (MetaCache s1)
                         \<lparr>ItemList := remove1 p (ItemList (MetaCache s1)),
                          ItemCount := ItemCount (MetaCache s1) - 1\<rparr>\<rparr>"
  from s2 have f: "struct_wf s2" "heap_inv p (s2, B)" "ItemHeap s2 p = Some itp" "shrinks s s2"
    "ItemList (MetaCache s2) = remove1 p (ItemList (MetaCache s))" "SpinLock (MetaCache s2)"
    using lk unfolding s2_def Let_def by auto
  define s3 where "s3 = s2\<lparr>MetaCache := (MetaCache s2)\<lparr>SpinLock := False\<rparr>\<rparr>"
  have r: "KeReleaseSpinLock s2 = Some s3" unfolding s3_def by (rule release [OF f(6)])
  have g: "struct_wf s3" "heap_inv p (s3, B)" "ItemHeap s3 p = Some itp" "shrinks s s3"
    "ItemList (MetaCache s3) = remove1 p (ItemList (MetaCache s))" "\<not> SpinLock (MetaCache s3)"
    using f unfolding s3_def by simp_all
  have "consistent (s3, (ItemBuffer itp + sizeof_ItemBuffer) # B)"
    by (rule held_borrowed [OF g(6) g(1) g(2) g(3)])
  then show ?thesis using s1 r g(3,4,5) unfolding s2_def by auto
qed

lemma invalidate_locked_wf:
  assumes "consistent (s, B)"
  shows "MetaCacheInvalidateItem_locked Idx s = Some (0, s) \<or>
         (\<exists>p itp s3. p \<noteq> 0 \<and> p \<in> set (ItemList (MetaCache s)) \<and>
            MetaCacheInvalidateItem_locked Idx s = Some (p, s3) \<and>
            ItemHeap s p = Some itp \<and> ItemHeap s3 p = Some itp \<and>
            consistent (s3, (ItemBuffer itp + sizeof_ItemBuffer) # B) \<and> shrinks s s3)"
proof -
  from assms have lk: "\<not> SpinLock (MetaCache s)" and st: "struct_wf s" and hi: "heap_inv 0 (s, B)"
    by (simp_all add: consistent_def)
  define sl where "sl = s\<lparr>MetaCache := (MetaCache s)\<lparr>SpinLock := True\<rparr>\<rparr>"
  have acq: "KeAcquireSpinLock s = Some sl" unfolding sl_def by (rule acquire [OF lk])
  have sl: "SpinLock (MetaCache sl)" "struct_wf sl" "heap_inv 0 (sl, B)" "shrinks s sl"
    and rel: "KeReleaseSpinLock sl = Some s"
    and sll: "ItemList (MetaCache sl) = ItemList (MetaCache s)" "ItemHeap sl = ItemHeap s"
    using lk st hi shrinks_refl [of s] unfolding sl_def by (simp_all add: release)
  note st' = sl(2) [unfolded struct_wf_def struct_ok_def]
  from st' have n0: "ItemBucketCount (MetaCache sl) \<noteq> 0" by simp
  from HashIndex_of_bucket [OF n0, of Idx] obtain hx where
    hx: "HashIndex_of Idx sl = Some hx"
        "unat hx = unat Idx mod unat (ItemBucketCount (MetaCache sl))"
        "unat hx < unat (ItemBucketCount (MetaCache sl))" by blast
  have ilt: "unat hx < length (ItemBuckets (MetaCache sl))" using hx(3) st' by simp
  note ld = load_bucket [OF ilt]
  from st' ilt obtain xs where xs: "chain (ItemHeap sl) (ItemBuckets (MetaCache sl) ! unat hx) xs"
    unfolding bucket_ok_def by blast
  from bucket_ok_chain [OF _ xs] st' ilt
  have sub: "set xs \<subseteq> set (ItemList (MetaCache sl))" by blast
  from first_index [of xs "ItemHeap sl" Idx] show ?thesis
  proof
    assume "\<forall>x\<in>set xs. no_index (ItemHeap sl) Idx x"
    from invalidate_scan_absent [OF xs this ld]
    have "MetaCacheInvalidateItem_locked Idx s = Some (0, s)"
      by (simp add: MetaCacheInvalidateItem_locked_def acq hx rel)
    then show ?thesis by simp
  next
    assume "\<exists>ys p zs. xs = ys @ p # zs \<and> \<not> no_index (ItemHeap sl) Idx p \<and>
              (\<forall>x\<in>set ys. no_index (ItemHeap sl) Idx x)"
    then obtain ys p zs itp where f: "xs = ys @ p # zs" "\<forall>x\<in>set ys. no_index (ItemHeap sl) Idx x"
      "ItemHeap sl p = Some itp" "ItemIndex itp = Idx"
      by (auto simp: no_index_def split: option.splits)
    have pL: "p \<in> set (ItemList (MetaCache sl))" using sub f(1) by auto
    have p0: "p \<noteq> 0" using chain_live [OF xs, of p] f(1) by simp
    have hx': "unat hx = unat (ItemIndex itp) mod unat (ItemBucketCount (MetaCache sl))"
      using hx(2) f(4) by simp
    from remove_locked_wf [OF sl(1,2,3) f(3) pL hx' xs [unfolded f(1)]]
    obtain s1 s3 where r:
      "store_slot (if ys = [] then BucketSlot hx else DictNextSlot (last ys)) (DictNext itp) sl
            = Some s1"
      "KeReleaseSpinLock (s1\<lparr>MetaCache := (MetaCache s1)
                         \<lparr>ItemList := remove1 p (ItemList (MetaCache s1)),
                          ItemCount := ItemCount (MetaCache s1) - 1\<rparr>\<rparr>) = Some s3"
      "consistent (s3, (ItemBuffer itp + sizeof_ItemBuffer) # B)"
      "ItemHeap s3 p = Some itp" "shrinks sl s3" by blast
    have "MetaCacheInvalidateItem_locked Idx s = Some (p, s3)"
      using invalidate_scan_found [OF xs [unfolded f(1)] f(2) ld f(3,4)] r(1,2) p0
      by (simp add: MetaCacheInvalidateItem_locked_def acq hx)
    moreover have "shrinks s s3" using shrinks_trans [OF sl(4) r(5)] .
    ultimately show ?thesis using r(3,4) p0 pL f(3) sll by auto
  qed
qed

lemma sweep_locked_wf:
  assumes "consistent (s, B)"
  shows "MetaCacheInvalidateItems_locked Exp s = Some (0, s) \<or>
         (\<exists>e itp s3. e \<noteq> 0 \<and> e \<in> set (ItemList (MetaCache s)) \<and>
            MetaCacheInvalidateItems_locked Exp s = Some (e, s3) \<and>
            ItemHeap s e = Some itp \<and> ItemHeap s3 e = Some itp \<and>
            consistent (s3, (ItemBuffer itp + sizeof_ItemBuffer) # B) \<and> shrinks s s3)"
proof -
  from assms have lk: "\<not> SpinLock (MetaCache s)" and st: "struct_wf s" and hi: "heap_inv 0 (s, B)"
    by (simp_all add: consistent_def)
  define sl where "sl = s\<lparr>MetaCache := (MetaCache s)\<lparr>SpinLock := True\<rparr>\<rparr>"
  have acq: "KeAcquireSpinLock s = Some sl" unfolding sl_def by (rule acquire [OF lk])
  have sl: "SpinLock (MetaCache sl)" "struct_wf sl" "heap_inv 0 (sl, B)" "shrinks s sl"
    and rel: "KeReleaseSpinLock sl = Some s"
    and sll: "ItemList (MetaCache sl) = ItemList (MetaCache s)" "ItemHeap sl = ItemHeap s"
    using lk st hi shrinks_refl [of s] unfolding sl_def by (simp_all add: release)
  note st' = sl(2) [unfolded struct_wf_def struct_ok_def]
  show ?thesis
  proof (cases "ItemList (MetaCache s)")
    case Nil
    then show ?thesis
      by (simp add: MetaCacheInvalidateItems_locked_def acq sll rel)
  next
    case (Cons e es)
    then have eL: "e \<in> set (ItemList (MetaCache sl))" by (simp add: sll)
    with st' obtain it where it: "ItemHeap sl e = Some it" by auto
    have e0: "e \<noteq> 0" using it st' by (cases "e = 0") auto
    show ?thesis
    proof (cases "ExpirationTime it \<le> Exp")
      case False
      with Cons it show ?thesis
        by (simp add: MetaCacheInvalidateItems_locked_def acq sll rel)
    next
      case True
      from st' have n0: "ItemBucketCount (MetaCache sl) \<noteq> 0" by simp
      from HashIndex_of_bucket [OF n0, of "ItemIndex it"] obtain hx where
        hx: "HashIndex_of (ItemIndex it) sl = Some hx"
            "unat hx = unat (ItemIndex it) mod unat (ItemBucketCount (MetaCache sl))"
            "unat hx < unat (ItemBucketCount (MetaCache sl))" by blast
      have ilt: "unat hx < length (ItemBuckets (MetaCache sl))" using hx(3) st' by simp
      note ld = load_bucket [OF ilt]
      from st' ilt obtain xs where xs: "chain (ItemHeap sl) (ItemBuckets (MetaCache sl) ! unat hx) xs"
        unfolding bucket_ok_def by blast
      from bucket_ok_chain [OF _ xs] st' ilt
      have "distinct xs" "e \<in> set xs" using eL it hx(2) by auto
      then obtain ys zs where yz: "xs = ys @ e # zs" "e \<notin> set ys"
        by (meson split_list_first)
      from remove_locked_wf [OF sl(1,2,3) it eL hx(2) xs [unfolded yz(1)]]
      obtain s1 s3 where r:
        "store_slot (if ys = [] then BucketSlot hx else DictNextSlot (last ys)) (DictNext it) sl
              = Some s1"
        "KeReleaseSpinLock (s1\<lparr>MetaCache := (MetaCache s1)
                           \<lparr>ItemList := remove1 e (ItemList (MetaCache s1)),
                            ItemCount := ItemCount (MetaCache s1) - 1\<rparr>\<rparr>) = Some s3"
        "consistent (s3, (ItemBuffer it + sizeof_ItemBuffer) # B)"
        "ItemHeap s3 e = Some it" "shrinks sl s3"
        by blast
      have "MetaCacheInvalidateItems_locked Exp s = Some (e, s3)"
        using unlink_item_found [OF xs [unfolded yz(1)] yz(2) ld it] r(1,2) True it Cons
        by (simp add: MetaCacheInvalidateItems_locked_def acq sll hx)
      moreover have "shrinks s s3" using shrinks_trans [OF sl(4) r(5)] .
      ultimately show ?thesis using r(3,4) e0 eL it sll by auto
    qed
  qed
qed

text \<open>A borrow finds its item on the list.\<close>

lemma borrow_listed_wf:
  assumes consistent: "consistent (s, B)" and bound: "length B + 2 < 2 ^ 32"
  shows "\<exists>p sz s'. MetaCacheReferenceItemBuffer Idx PSize s = Some (p, sz, s') \<and>
           consistent (s', if p = 0 then B else p # B) \<and> shrinks s s' \<and>
           (p = 0 \<or> (\<exists>q itq. q \<in> set (ItemList (MetaCache s)) \<and> ItemHeap s q = Some itq \<and>
                       p = ItemBuffer itq + sizeof_ItemBuffer))"
proof -
  from consistent have lk: "\<not> SpinLock (MetaCache s)" and st: "struct_wf s" and hi: "heap_inv 0 (s, B)"
    by (simp_all add: consistent_def)
  define sl where "sl = s\<lparr>MetaCache := (MetaCache s)\<lparr>SpinLock := True\<rparr>\<rparr>"
  have acq: "KeAcquireSpinLock s = Some sl" unfolding sl_def by (rule acquire [OF lk])
  have sl: "SpinLock (MetaCache sl)" "struct_wf sl" "heap_inv 0 (sl, B)"
    and rel: "KeReleaseSpinLock sl = Some s"
    and sll: "ItemList (MetaCache sl) = ItemList (MetaCache s)"
    using lk st hi unfolding sl_def by (simp_all add: release)
  note st' = sl(2) [unfolded struct_wf_def struct_ok_def]
  from st' have n0: "ItemBucketCount (MetaCache sl) \<noteq> 0" by simp
  from HashIndex_of_bucket [OF n0, of Idx] obtain hx where
    hx: "HashIndex_of Idx sl = Some hx"
        "unat hx < unat (ItemBucketCount (MetaCache sl))" by blast
  have ilt: "unat hx < length (ItemBuckets (MetaCache sl))" using hx(2) st' by simp
  note ld = load_bucket [OF ilt]
  from st' ilt obtain xs where xs: "chain (ItemHeap sl) (ItemBuckets (MetaCache sl) ! unat hx) xs"
    unfolding bucket_ok_def by blast
  from bucket_ok_chain [OF _ xs] st' ilt
  have sub: "set xs \<subseteq> set (ItemList (MetaCache sl))" by blast
  from first_index [of xs "ItemHeap sl" Idx] show ?thesis
  proof
    assume "\<forall>x\<in>set xs. no_index (ItemHeap sl) Idx x"
    from reference_scan_absent [OF xs this]
    have "MetaCacheReferenceItemBuffer Idx PSize s = Some (0, map_option (\<lambda>_. 0) PSize, s)"
      by (simp add: MetaCacheReferenceItemBuffer_def acq hx ld rel)
    with consistent shrinks_refl show ?thesis by simp
  next
    assume "\<exists>ys p zs. xs = ys @ p # zs \<and> \<not> no_index (ItemHeap sl) Idx p \<and>
              (\<forall>x\<in>set ys. no_index (ItemHeap sl) Idx x)"
    then obtain ys p zs itp where f: "xs = ys @ p # zs" "\<forall>x\<in>set ys. no_index (ItemHeap sl) Idx x"
      "ItemHeap sl p = Some itp" "ItemIndex itp = Idx"
      by (auto simp: no_index_def split: option.splits)
    have p0: "p \<noteq> 0" using chain_live [OF xs, of p] f(1) by simp
    have pL: "p \<in> set (ItemList (MetaCache s))" using sub f(1) sll by auto
    have itp: "ItemHeap s p = Some itp" using f(3) by (simp add: sl_def)
    let ?it = "itp\<lparr>RefCount := RefCount itp + 1\<rparr>"
    define s' where "s' = s\<lparr>ItemHeap := (ItemHeap s)(p \<mapsto> ?it)\<rparr>"
    note ok = borrow_ok [OF st [unfolded struct_wf_def] hi [unfolded heap_inv_def fst_conv snd_conv]
      itp bound]
    then obtain b where b: "BufferHeap s (ItemBuffer itp) = Some b" by auto
    have rs: "reference_scan Idx (ItemBuckets (MetaCache sl) ! unat hx) sl =
        Some (p, sl\<lparr>ItemHeap := (ItemHeap sl)(p \<mapsto> ?it)\<rparr>)"
      by (rule reference_scan_found [OF xs [unfolded f(1)] f(2) f(3) f(4)])
    have rl: "KeReleaseSpinLock (sl\<lparr>ItemHeap := (ItemHeap sl)(p \<mapsto> ?it)\<rparr>) = Some s'"
      using lk by (simp add: KeReleaseSpinLock_def sl_def s'_def)
    have "MetaCacheReferenceItemBuffer Idx PSize s =
            Some (ItemBuffer itp + sizeof_ItemBuffer, map_option (\<lambda>_. Size b) PSize, s')"
      using p0 b by (simp add: MetaCacheReferenceItemBuffer_def acq hx ld rs rl) (simp add: s'_def)
    moreover have "consistent (s', (ItemBuffer itp + sizeof_ItemBuffer) # B)"
      using ok lk by (simp add: consistent_def struct_wf_def heap_inv_def s'_def)
    moreover have "shrinks s s'"
      using shrinks_refl [of s] itp unfolding shrinks_def s'_def by (auto split: if_splits)
    moreover have "(if ItemBuffer itp + sizeof_ItemBuffer = 0 then B
                    else (ItemBuffer itp + sizeof_ItemBuffer) # B) =
                   (ItemBuffer itp + sizeof_ItemBuffer) # B"
      by (simp add: sizeof_ItemBuffer_def)
    moreover have "\<exists>q itq. q \<in> set (ItemList (MetaCache s)) \<and> ItemHeap s q = Some itq \<and>
                       ItemBuffer itp + sizeof_ItemBuffer = ItemBuffer itq + sizeof_ItemBuffer"
      using pL itp by blast
    ultimately show ?thesis
      by (intro exI [of _ "ItemBuffer itp + sizeof_ItemBuffer"] exI [of _ "map_option (\<lambda>_. Size b) PSize"]
            exI [of _ s']) (simp only: simp_thms)
  qed
qed

text \<open>The first section of an insertion.\<close>

lemma add_unlocked_cases:
  assumes "MetaCacheAddItem_unlocked Buf Sz s = Some (r, s1)"
  shows "(r = None \<and> MetaCache s1 = MetaCache s \<and> ItemHeap s1 = ItemHeap s \<and>
          BufferHeap s1 = BufferHeap s \<and> InterruptTime s1 = InterruptTime s) \<or>
         (\<exists>p b. r = Some (p, b) \<and> s1 = prepared p b Buf Sz s \<and> p \<noteq> 0 \<and> b \<noteq> 0 \<and>
            ItemHeap s p = None \<and> BufferHeap s b = None \<and> unat Sz \<le> length Buf)"
  using assms unfolding MetaCacheAddItem_unlocked_def prepared_def
  apply (simp split: if_splits Option.bind_splits prod.splits)
  apply (auto dest!: alloc_item_cases alloc_buffer_cases
              simp: FspFree_Item_def zero_item_def zero_buffer_def KeQueryInterruptTime_def
              split: if_splits)
  done

lemma struct_ok_new:
  assumes st: "struct_ok n bk cnt L h" and fp: "h p = None" and p0: "p \<noteq> 0"
  shows "struct_ok n bk cnt L (h(p \<mapsto> it))"
proof -
  have pL: "p \<notin> set L" using st fp by (auto simp: struct_ok_def)
  have "bucket_ok (unat n) L (h(p \<mapsto> it)) i (bk ! i)" if "i < length bk" for i
  proof -
    from st that obtain xs where xs: "chain h (bk ! i) xs" "distinct xs"
      "set xs = {q \<in> set L. \<exists>it. h q = Some it \<and> unat (ItemIndex it) mod unat n = i}"
      unfolding struct_ok_def bucket_ok_def by blast
    have "p \<notin> set xs" using chain_live [OF xs(1), of p] fp by auto
    then have "chain (h(p \<mapsto> it)) (bk ! i) xs" using xs(1) chain_upd_other [of p xs h] by blast
    moreover have "{q \<in> set L. \<exists>x. (h(p \<mapsto> it)) q = Some x \<and> unat (ItemIndex x) mod unat n = i} =
          {q \<in> set L. \<exists>it. h q = Some it \<and> unat (ItemIndex it) mod unat n = i}"
      using pL by auto
    ultimately show ?thesis unfolding bucket_ok_def using xs(2,3) by (intro exI [of _ xs]) simp
  qed
  then show ?thesis using st p0 unfolding struct_ok_def by auto
qed

lemma prepare_ok:
  assumes ok: "consistent (s, G)" and fp: "ItemHeap s p = None" and fb: "BufferHeap s b = None"
    and p0: "p \<noteq> 0" and rd: "unat Sz \<le> length Buf"
  shows "consistent (prepared p b Buf Sz s, (b + sizeof_ItemBuffer) # G)"
proof -
  let ?L = "ItemList (MetaCache s)" and ?h = "ItemHeap s" and ?bh = "BufferHeap s"
  define it0 where "it0 = \<lparr>DictNext = 0, ItemBuffer = b, ItemIndex = 0,
                  ExpirationTime = InterruptTime s + MetaTimeout (MetaCache s), RefCount = 1\<rparr>"
  define buf where "buf = \<lparr>Item = p, Size = Sz, Buffer = take (unat Sz) Buf\<rparr>"
  let ?G = "(b + sizeof_ItemBuffer) # G"
  from ok have lk: "\<not> SpinLock (MetaCache s)" and st: "struct_ok (ItemBucketCount (MetaCache s))
      (ItemBuckets (MetaCache s)) (ItemCount (MetaCache s)) ?L ?h"
    and hi: "heap_ok 0 ?L ?h ?bh G"
    by (simp_all add: consistent_def struct_wf_def heap_inv_def)
  have pL: "p \<notin> set ?L" using st fp by (auto simp: struct_ok_def)
  have bG: "b + sizeof_ItemBuffer \<notin> set G"
  proof
    assume "b + sizeof_ItemBuffer \<in> set G"
    with hi have "?bh (b + sizeof_ItemBuffer - sizeof_ItemBuffer) \<noteq> None"
      unfolding heap_ok_def by blast
    with fb show False by simp
  qed
  have st': "struct_ok (ItemBucketCount (MetaCache s)) (ItemBuckets (MetaCache s))
      (ItemCount (MetaCache s)) ?L (?h(p \<mapsto> it0))"
    by (rule struct_ok_new [OF st fp p0])
  have "heap_ok 0 ?L (?h(p \<mapsto> it0)) (?bh(b \<mapsto> buf)) ?G"
    unfolding heap_ok_def
  proof (intro conjI allI impI ballI)
    fix q itq assume q: "(?h(p \<mapsto> it0)) q = Some itq"
    show "\<exists>x. (?bh(b \<mapsto> buf)) (ItemBuffer itq) = Some x \<and> Item x = q \<and>
                unat (Size x) = length (Buffer x)"
    proof (cases "q = p")
      case True
      with q have "itq = it0" by simp
      then show ?thesis using True rd by (simp add: it0_def buf_def)
    next
      case False
      with q have hq: "?h q = Some itq" by simp
      with hi obtain x where x: "?bh (ItemBuffer itq) = Some x" "Item x = q"
        "unat (Size x) = length (Buffer x)" unfolding heap_ok_def by blast
      with fb have "ItemBuffer itq \<noteq> b" by auto
      with x show ?thesis by simp
    qed
    show "RefCount itq \<noteq> 0"
    proof (cases "q = p")
      case True
      with q have "itq = it0" by simp
      then show ?thesis by (simp add: it0_def)
    next
      case False
      with q have hq: "?h q = Some itq" by simp
      with hi show ?thesis unfolding heap_ok_def by blast
    qed
    show "unat (RefCount itq) = holders ?L ?G q itq + (if q = 0 then 1 else 0)"
    proof (cases "q = p")
      case True
      with q have "itq = it0" by simp
      then show ?thesis using True pL bG p0 by (simp add: it0_def holders_def)
    next
      case False
      with q have hq: "?h q = Some itq" by simp
      with hi obtain x where x: "?bh (ItemBuffer itq) = Some x" unfolding heap_ok_def by blast
      with fb have "ItemBuffer itq \<noteq> b" by auto
      moreover from hi hq have "unat (RefCount itq) = holders ?L G q itq + (if q = 0 then 1 else 0)"
        unfolding heap_ok_def by blast
      ultimately show ?thesis by (simp add: holders_cons)
    qed
  next
    fix q bq assume q: "(?bh(b \<mapsto> buf)) q = Some bq"
    show "\<exists>it. (?h(p \<mapsto> it0)) (Item bq) = Some it \<and> ItemBuffer it = q"
    proof (cases "q = b")
      case True
      with q have "bq = buf" by simp
      then show ?thesis using True by (simp add: buf_def it0_def)
    next
      case False
      with q have "?bh q = Some bq" by simp
      with hi obtain x where x: "?h (Item bq) = Some x" "ItemBuffer x = q"
        unfolding heap_ok_def by blast
      with fp have "Item bq \<noteq> p" by auto
      with x show ?thesis by simp
    qed
  next
    fix y assume "y \<in> set ?G"
    then consider "y = b + sizeof_ItemBuffer" | "y \<in> set G" by auto
    then have "sizeof_ItemBuffer \<le> y \<and> (?bh(b \<mapsto> buf)) (y - sizeof_ItemBuffer) \<noteq> None"
    proof cases
      case 1
      then show ?thesis by simp
    next
      case 2
      with hi show ?thesis unfolding heap_ok_def by auto
    qed
    then show "sizeof_ItemBuffer \<le> y" "(?bh(b \<mapsto> buf)) (y - sizeof_ItemBuffer) \<noteq> None"
      by simp_all
  qed
  with st' lk show ?thesis
    by (simp add: consistent_def struct_wf_def heap_inv_def prepared_def it0_def buf_def)
qed

text \<open>The last section of an insertion: the item goes on the list with the reference
  that the call holds, or the call frees it.\<close>

lemma add_rest_wf:
  assumes ok: "consistent (s, G)" and t: "task_ok s (Adding p b)"
    and x: "b + sizeof_ItemBuffer \<in> set G"
  shows "\<exists>Idx s'. MetaCacheAddItem_rest p b s = Some (Idx, s') \<and>
           consistent (s', remove1 (b + sizeof_ItemBuffer) G) \<and>
           (shrinks s s' \<or>
            (\<exists>it it'. ItemHeap s p = Some it \<and> ItemHeap s' = (ItemHeap s)(p \<mapsto> it') \<and>
               ExpirationTime it' = ExpirationTime it \<and> ItemBuffer it' = ItemBuffer it \<and>
               RefCount it' = RefCount it \<and>
               ItemList (MetaCache s') = ItemList (MetaCache s) @ [p] \<and>
               BufferHeap s' = BufferHeap s \<and> InterruptTime s' = InterruptTime s \<and>
               MetaTimeout (MetaCache s') = MetaTimeout (MetaCache s)))"
proof -
  let ?L = "ItemList (MetaCache s)" and ?h = "ItemHeap s" and ?bh = "BufferHeap s"
  let ?G = "remove1 (b + sizeof_ItemBuffer) G"
  from t obtain it where it: "?h p = Some it" "ItemBuffer it = b" "RefCount it = 1" "p \<notin> set ?L"
    by (auto split: option.splits)
  from ok have lk: "\<not> SpinLock (MetaCache s)" and st: "struct_ok (ItemBucketCount (MetaCache s))
      (ItemBuckets (MetaCache s)) (ItemCount (MetaCache s)) ?L ?h"
    and hi: "heap_ok 0 ?L ?h ?bh G"
    by (simp_all add: consistent_def struct_wf_def heap_inv_def)
  have p0: "p \<noteq> 0" using st it(1) by (rule live_not_null)
  from hi it(1,2) obtain buf where buf: "?bh b = Some buf" "Item buf = p"
    "unat (Size buf) = length (Buffer buf)" unfolding heap_ok_def by fastforce
  define sf where "sf = s\<lparr>ItemHeap := ?h(p := None), BufferHeap := ?bh(b := None)\<rparr>"
  have "BufferHeap s (ItemBuffer it) \<noteq> None" using buf it(2) by simp
  from deref_result [OF it(1) this] have df: "MetaCacheDereferenceItem p s = Some sf"
    using it(2,3) by (simp add: sf_def)
  from deref_held [OF ok it(1)] x it(2) df have okf: "consistent (sf, ?G)" and shf: "shrinks s sf"
    by auto
  show ?thesis
  proof (cases "ItemCount (MetaCache s) < MetaCapacity (MetaCache s)")
    case False
    define s' where "s' = s\<lparr>BufferHeap := ?bh(b := None), ItemHeap := ?h(p := None)\<rparr>"
    have e: "MetaCache s' = MetaCache sf" "ItemHeap s' = ItemHeap sf" "BufferHeap s' = BufferHeap sf"
      "InterruptTime s' = InterruptTime sf" "Pool s' = Pool sf"
      by (simp_all add: s'_def sf_def)
    have "MetaCacheAddItem_rest p b s = Some (0, s')"
      using add_locked_full [OF lk False, of p] buf(1) it(1)
      by (simp add: MetaCacheAddItem_rest_def FspFree_Buffer_def FspFree_Item_def s'_def)
    moreover have "consistent (s', ?G)" using okf wf_cong [OF e(1,2,3)] by simp
    moreover have "shrinks s s'" using shf unfolding shrinks_def e by simp
    ultimately show ?thesis by blast
  next
    case True
    define Idx where "Idx = (if NextItemIndex (MetaCache s) = - 1 then 1 else NextItemIndex (MetaCache s) + 1)"
    from st have n0: "ItemBucketCount (MetaCache s) \<noteq> 0" by (simp add: struct_ok_def)
    from HashIndex_of_bucket [OF n0, of Idx] obtain hx where
      hx: "HashIndex_of Idx s = Some hx"
          "unat hx = unat Idx mod unat (ItemBucketCount (MetaCache s))"
          "unat hx < unat (ItemBucketCount (MetaCache s))" by blast
    have ilt: "unat hx < length (ItemBuckets (MetaCache s))" using hx(3) st by (simp add: struct_ok_def)
    define it' where "it' = it\<lparr>ItemIndex := Idx, DictNext := ItemBuckets (MetaCache s) ! unat hx\<rparr>"
    define s' where "s' = s\<lparr>MetaCache := (MetaCache s)
                 \<lparr>NextItemIndex := Idx, ItemCount := ItemCount (MetaCache s) + 1,
                  ItemList := ItemList (MetaCache s) @ [p],
                  ItemBuckets := (ItemBuckets (MetaCache s))[unat hx := p]\<rparr>,
              ItemHeap := (ItemHeap s)(p \<mapsto> it')\<rparr>"
    have lkd: "MetaCacheAddItem_locked p s = Some (Idx, True, s')"
      unfolding s'_def it'_def by (rule add_locked_run [OF lk it(1) hx(1) ilt Idx_def True])
    have run: "MetaCacheAddItem_rest p b s = Some (Idx, s')"
      by (simp add: MetaCacheAddItem_rest_def lkd)
    from okf have stf: "struct_ok (ItemBucketCount (MetaCache s))
        (ItemBuckets (MetaCache s)) (ItemCount (MetaCache s)) ?L (?h(p := None))"
      and hif: "heap_ok 0 ?L (?h(p := None)) (?bh(b := None)) ?G"
      by (simp_all add: consistent_def struct_wf_def heap_inv_def sf_def)
    have a: "struct_ok (ItemBucketCount (MetaCache s)) ((ItemBuckets (MetaCache s))[unat hx := p])
               (ItemCount (MetaCache s) + 1) (?L @ [p]) ((?h(p := None))(p \<mapsto> it')) \<and>
            heap_ok 0 (?L @ [p]) ((?h(p := None))(p \<mapsto> it')) ((?bh(b := None))(b \<mapsto> buf)) ?G"
      by (rule add_ok [OF stf hif _ _ p0 _ True, where Idx = Idx])
         (simp_all add: hx(2) it'_def it buf)
    have e: "(?h(p := None))(p \<mapsto> it') = ?h(p \<mapsto> it')" "(?bh(b := None))(b \<mapsto> buf) = ?bh"
      using buf(1) by auto
    have "consistent (s', ?G)"
      using a lk unfolding e by (simp add: consistent_def struct_wf_def heap_inv_def s'_def)
    moreover have "\<exists>it it'. ItemHeap s p = Some it \<and> ItemHeap s' = (ItemHeap s)(p \<mapsto> it') \<and>
               ExpirationTime it' = ExpirationTime it \<and> ItemBuffer it' = ItemBuffer it \<and>
               RefCount it' = RefCount it \<and>
               ItemList (MetaCache s') = ItemList (MetaCache s) @ [p] \<and>
               BufferHeap s' = BufferHeap s \<and> InterruptTime s' = InterruptTime s \<and>
               MetaTimeout (MetaCache s') = MetaTimeout (MetaCache s)"
      using it(1) by (intro exI [of _ it] exI [of _ it']) (simp add: s'_def it'_def)
    ultimately show ?thesis using run by blast
  qed
qed

lemma task_ok_cong:
  "ItemHeap s' = ItemHeap s \<Longrightarrow> ItemList (MetaCache s') = ItemList (MetaCache s) \<Longrightarrow>
   task_ok s' t = task_ok s t"
  by (cases t) (simp_all split: option.splits)

lemma task_keep:
  assumes ok: "consistent (s, G)" and ok': "consistent (s', G')" and k: "keeps s s'"
    and t: "task_ok s t" and x: "set (ref_of t) \<subseteq> set G'"
    and c: "\<forall>p b. t = Adding p b \<longrightarrow>
              count_list G' (b + sizeof_ItemBuffer) \<le> count_list G (b + sizeof_ItemBuffer) \<and>
              p \<notin> set (ItemList (MetaCache s'))"
  shows "task_ok s' t"
proof (cases t)
  case (Adding p b)
  with adding_keep [OF ok ok' k, of p b] t x c show ?thesis by simp
next
  case (Sweeping e)
  then show ?thesis by simp
next
  case (Dropping p b e)
  with dropping_keep [OF ok ok' k, of p b e] t x show ?thesis by simp
qed

lemma shrinks_list:
  "shrinks s s' \<Longrightarrow> set (ItemList (MetaCache s')) \<subseteq> set (ItemList (MetaCache s))"
  unfolding shrinks_def by auto

lemma adding_unlisted:
  "task_ok s (Adding p b) \<Longrightarrow> set (ItemList (MetaCache s')) \<subseteq> set (ItemList (MetaCache s)) \<Longrightarrow>
   p \<notin> set (ItemList (MetaCache s'))"
  by (auto split: option.splits)

text \<open>The payload of an item on the list is not the payload of an insertion in
  flight.\<close>

lemma adding_other:
  assumes ok: "consistent (s, G)" and t: "task_ok s (Adding p b)"
    and q: "q \<in> set (ItemList (MetaCache s))" "ItemHeap s q = Some itq"
  shows "ItemBuffer itq + sizeof_ItemBuffer \<noteq> b + sizeof_ItemBuffer"
proof -
  from t obtain it where it: "ItemHeap s p = Some it" "ItemBuffer it = b"
    "p \<notin> set (ItemList (MetaCache s))" by (auto split: option.splits)
  from ok have hi: "heap_ok 0 (ItemList (MetaCache s)) (ItemHeap s) (BufferHeap s) G"
    by (simp add: consistent_def heap_inv_def)
  from q(1) it(3) have "q \<noteq> p" by auto
  with heap_ok_buffer_inj [OF hi q(2) it(1)] it(2) show ?thesis by auto
qed

lemma count_remove1_refs:
  assumes "t \<in> set T" "ref_of t = [x]"
  shows "count_list (remove1 x (refs T @ B)) y = count_list (refs (remove1 t T) @ B) y"
proof -
  have "x \<in> set (refs T @ B)" using ref_of_refs [OF assms(1), of x] assms(2) by simp
  from count_list_remove1 [OF this, of y] count_refs_remove1 [OF assms(1), of y] assms(2)
  show ?thesis by (auto split: if_splits)
qed

lemma count_remove1_none:
  assumes "t \<in> set T" "ref_of t = []"
  shows "count_list (refs (remove1 t T)) y = count_list (refs T) y"
  using count_refs_remove1 [OF assms(1), of y] assms(2) by simp

lemma count_refs_remove1_le: "count_list (refs (remove1 t T)) y \<le> count_list (refs T) y"
proof (cases "t \<in> set T")
  case True
  from count_refs_remove1 [OF this, of y] show ?thesis by simp
next
  case False
  then show ?thesis by (simp add: remove1_idem)
qed

text \<open>The moves, one by one.\<close>

lemma enter_borrow_step:
  assumes ok: "cconsistent (s, B, T)" and m: "enter (Borrow Idx PSize) (s, B, T) = Some w'"
  shows "cconsistent w' \<and> cframe (s, B, T) w'"
proof -
  let ?G = "refs T @ B"
  from ok have c: "consistent (s, ?G)" and tk: "\<forall>t \<in> set T. task_ok s t"
    by (simp_all add: cconsistent_def)
  from m have "length B + length T + 2 < 2 ^ 32" by (simp split: if_splits)
  then have bound: "length ?G + 2 < 2 ^ 32" using length_refs [of T] by simp
  from borrow_listed_wf [OF c bound, of Idx PSize] obtain x sz s' where
    r: "MetaCacheReferenceItemBuffer Idx PSize s = Some (x, sz, s')"
       "consistent (s', if x = 0 then ?G else x # ?G)" "shrinks s s'"
       "x = 0 \<or> (\<exists>q itq. q \<in> set (ItemList (MetaCache s)) \<and> ItemHeap s q = Some itq \<and>
                       x = ItemBuffer itq + sizeof_ItemBuffer)" by blast
  define B' where "B' = (if x = 0 then B else x # B)"
  from m r(1) have w': "w' = (s', B', T)" by (simp add: B'_def split: if_splits)
  have c': "consistent (s', refs T @ B')"
    by (rule consistent_count [OF r(2)]) (simp add: B'_def)
  have "task_ok s' t" if t: "t \<in> set T" for t
  proof (rule task_keep [OF c c' shrinks_keeps [OF r(3)]])
    show "task_ok s t" using tk t by simp
    show "set (ref_of t) \<subseteq> set (refs T @ B')" using ref_of_refs [OF t] by auto
    show "\<forall>p b. t = Adding p b \<longrightarrow>
              count_list (refs T @ B') (b + sizeof_ItemBuffer)
                \<le> count_list (refs T @ B) (b + sizeof_ItemBuffer) \<and>
              p \<notin> set (ItemList (MetaCache s'))"
    proof (intro allI impI)
      fix p b assume e: "t = Adding p b"
      have a: "task_ok s (Adding p b)" using tk t unfolding e [symmetric] by blast
      have "x \<noteq> b + sizeof_ItemBuffer" if "x \<noteq> 0"
        using r(4) that adding_other [OF c a] by auto
      then have "count_list (refs T @ B') (b + sizeof_ItemBuffer)
                \<le> count_list (refs T @ B) (b + sizeof_ItemBuffer)"
        by (auto simp: B'_def)
      with adding_unlisted [OF a shrinks_list [OF r(3)]]
      show "count_list (refs T @ B') (b + sizeof_ItemBuffer)
                \<le> count_list (refs T @ B) (b + sizeof_ItemBuffer) \<and>
              p \<notin> set (ItemList (MetaCache s'))" by simp
    qed
  qed
  with c' r(3) show ?thesis by (simp add: w' cconsistent_def cframe_def)
qed

lemma enter_return_step:
  assumes ok: "cconsistent (s, B, T)" and m: "enter (Return x) (s, B, T) = Some w'"
  shows "cconsistent w' \<and> cframe (s, B, T) w'"
proof -
  let ?G = "refs T @ B"
  from ok have c: "consistent (s, ?G)" and tk: "\<forall>t \<in> set T. task_ok s t"
    by (simp_all add: cconsistent_def)
  from m have x: "x \<in> set B" by (simp split: if_splits)
  then have xG: "x \<in> set ?G" by simp
  from return_wf [OF c xG] obtain s' where
    r: "MetaCacheDereferenceItemBuffer x s = Some s'" "consistent (s', remove1 x ?G)"
       "shrinks s s'" by blast
  from m r(1) x have w': "w' = (s', remove1 x B, T)" by simp
  have cnt: "count_list (remove1 x ?G) y = count_list (refs T @ remove1 x B) y" for y
    using count_list_remove1 [OF xG, of y] count_list_remove1 [OF x, of y] x
      count_list_0_iff [of B x]
    by (auto split: if_splits)
  have c': "consistent (s', refs T @ remove1 x B)"
    by (rule consistent_count [OF r(2)]) (rule allI, rule cnt)
  have "task_ok s' t" if t: "t \<in> set T" for t
  proof (rule task_keep [OF c c' shrinks_keeps [OF r(3)]])
    show "task_ok s t" using tk t by simp
    show "set (ref_of t) \<subseteq> set (refs T @ remove1 x B)" using ref_of_refs [OF t] by auto
    show "\<forall>p b. t = Adding p b \<longrightarrow>
              count_list (refs T @ remove1 x B) (b + sizeof_ItemBuffer)
                \<le> count_list (refs T @ B) (b + sizeof_ItemBuffer) \<and>
              p \<notin> set (ItemList (MetaCache s'))"
    proof (intro allI impI)
      fix p b assume e: "t = Adding p b"
      have a: "task_ok s (Adding p b)" using tk t unfolding e [symmetric] by blast
      have "count_list (refs T @ remove1 x B) (b + sizeof_ItemBuffer)
                \<le> count_list (refs T @ B) (b + sizeof_ItemBuffer)"
        using count_list_remove1 [OF x, of "b + sizeof_ItemBuffer"] by (auto split: if_splits)
      with adding_unlisted [OF a shrinks_list [OF r(3)]]
      show "count_list (refs T @ remove1 x B) (b + sizeof_ItemBuffer)
                \<le> count_list (refs T @ B) (b + sizeof_ItemBuffer) \<and>
              p \<notin> set (ItemList (MetaCache s'))" by simp
    qed
  qed
  with c' r(3) show ?thesis by (simp add: w' cconsistent_def cframe_def)
qed

text \<open>A removal has left the lock with the item \<open>p\<close>.\<close>

lemma removed_step:
  assumes c: "consistent (s, refs T @ B)" and tk: "\<forall>t \<in> set T. task_ok s t"
    and p: "p \<in> set (ItemList (MetaCache s))" "ItemHeap s p = Some itp" "ItemHeap s3 p = Some itp"
    and c3: "consistent (s3, (ItemBuffer itp + sizeof_ItemBuffer) # refs T @ B)"
    and sh: "shrinks s s3"
    and T': "set T' \<subseteq> set T" "\<forall>y. count_list (refs T') y = count_list (refs T) y"
  shows "cconsistent (s3, B, Dropping p (ItemBuffer itp) k # T')"
proof -
  let ?x = "ItemBuffer itp + sizeof_ItemBuffer"
  let ?G' = "refs (Dropping p (ItemBuffer itp) k # T') @ B"
  have c': "consistent (s3, ?G')"
    by (rule consistent_count [OF c3]) (simp add: refs_Cons T'(2))
  have "task_ok s3 t" if t: "t \<in> set T'" for t
  proof (rule task_keep [OF c c' shrinks_keeps [OF sh]])
    show "task_ok s t" using tk t T'(1) by auto
    show "set (ref_of t) \<subseteq> set ?G'" using ref_of_refs [OF t] by (auto simp: refs_Cons)
    show "\<forall>q b. t = Adding q b \<longrightarrow>
              count_list ?G' (b + sizeof_ItemBuffer)
                \<le> count_list (refs T @ B) (b + sizeof_ItemBuffer) \<and>
              q \<notin> set (ItemList (MetaCache s3))"
    proof (intro allI impI)
      fix q b assume e: "t = Adding q b"
      have "t \<in> set T" using t T'(1) by blast
      with tk have a: "task_ok s (Adding q b)" unfolding e [symmetric] by blast
      have "?x \<noteq> b + sizeof_ItemBuffer" using adding_other [OF c a p(1,2)] .
      then have "count_list ?G' (b + sizeof_ItemBuffer)
                \<le> count_list (refs T @ B) (b + sizeof_ItemBuffer)"
        by (simp add: refs_Cons T'(2))
      with adding_unlisted [OF a shrinks_list [OF sh]]
      show "count_list ?G' (b + sizeof_ItemBuffer)
                \<le> count_list (refs T @ B) (b + sizeof_ItemBuffer) \<and>
              q \<notin> set (ItemList (MetaCache s3))" by simp
    qed
  qed
  with c' p(3) show ?thesis by (simp add: cconsistent_def)
qed

lemma enter_invalidate_step:
  assumes ok: "cconsistent (s, B, T)" and m: "enter (Invalidate Idx) (s, B, T) = Some w'"
  shows "cconsistent w' \<and> cframe (s, B, T) w'"
proof -
  let ?G = "refs T @ B"
  from ok have c: "consistent (s, ?G)" and tk: "\<forall>t \<in> set T. task_ok s t"
    by (simp_all add: cconsistent_def)
  from invalidate_locked_wf [OF c, of Idx] show ?thesis
  proof (elim disjE exE conjE)
    assume "MetaCacheInvalidateItem_locked Idx s = Some (0, s)"
    with m have "w' = (s, B, T)" by simp
    with ok shrinks_refl [of s] show ?thesis by (simp add: cframe_def)
  next
    fix p itp s3
    assume a: "p \<noteq> 0" "p \<in> set (ItemList (MetaCache s))"
      "MetaCacheInvalidateItem_locked Idx s = Some (p, s3)"
      "ItemHeap s p = Some itp" "ItemHeap s3 p = Some itp"
      "consistent (s3, (ItemBuffer itp + sizeof_ItemBuffer) # ?G)" "shrinks s s3"
    from m a(1,3,5) have w': "w' = (s3, B, Dropping p (ItemBuffer itp) None # T)" by simp
    have "cconsistent w'" unfolding w'
      by (rule removed_step [OF c tk a(2,4,5,6,7)]) simp_all
    with a(7) show ?thesis by (simp add: w' cframe_def)
  qed
qed

lemma resume_sweeping_step:
  assumes ok: "cconsistent (s, B, T)" and t: "Sweeping e \<in> set T"
    and m: "resume (Sweeping e) (s, B, T) = Some w'"
  shows "cconsistent w' \<and> cframe (s, B, T) w'"
proof -
  let ?G = "refs T @ B" and ?T = "remove1 (Sweeping e) T"
  from ok have c: "consistent (s, ?G)" and tk: "\<forall>t \<in> set T. task_ok s t"
    by (simp_all add: cconsistent_def)
  have sub: "set ?T \<subseteq> set T" by (rule set_remove1_subset)
  have cnt: "\<forall>y. count_list (refs ?T) y = count_list (refs T) y"
    using count_remove1_none [OF t] by simp
  from sweep_locked_wf [OF c, of e] show ?thesis
  proof (elim disjE exE conjE)
    assume "MetaCacheInvalidateItems_locked e s = Some (0, s)"
    with m have w': "w' = (s, B, ?T)" by simp
    have "consistent (s, refs ?T @ B)"
      by (rule consistent_count [OF c]) (simp add: cnt)
    with tk sub shrinks_refl [of s] show ?thesis by (auto simp: w' cconsistent_def cframe_def)
  next
    fix p itp s3
    assume a: "p \<noteq> 0" "p \<in> set (ItemList (MetaCache s))"
      "MetaCacheInvalidateItems_locked e s = Some (p, s3)"
      "ItemHeap s p = Some itp" "ItemHeap s3 p = Some itp"
      "consistent (s3, (ItemBuffer itp + sizeof_ItemBuffer) # ?G)" "shrinks s s3"
    from m a(1,3,5) have w': "w' = (s3, B, Dropping p (ItemBuffer itp) (Some e) # ?T)" by simp
    have "cconsistent w'" unfolding w'
      by (rule removed_step [OF c tk a(2,4,5,6,7) sub cnt])
    with a(7) sub show ?thesis by (auto simp: w' cframe_def)
  qed
qed

lemma resume_dropping_step:
  assumes ok: "cconsistent (s, B, T)" and t: "Dropping p b k \<in> set T"
    and m: "resume (Dropping p b k) (s, B, T) = Some w'"
  shows "cconsistent w' \<and> cframe (s, B, T) w'"
proof -
  let ?G = "refs T @ B" and ?T = "remove1 (Dropping p b k) T"
  let ?x = "b + sizeof_ItemBuffer"
  define K where "K = (case k of None \<Rightarrow> [] | Some e \<Rightarrow> [Sweeping e])"
  from ok have c: "consistent (s, ?G)" and tk: "\<forall>t \<in> set T. task_ok s t"
    by (simp_all add: cconsistent_def)
  from tk t obtain it where it: "ItemHeap s p = Some it" "ItemBuffer it = b"
    by (fastforce split: option.splits)
  have xG: "?x \<in> set ?G" using ref_of_refs [OF t, of ?x] by simp
  from deref_held [OF c it(1)] xG it(2) obtain s' where
    r: "MetaCacheDereferenceItem p s = Some s'" "consistent (s', remove1 ?x ?G)" "shrinks s s'"
    by auto
  from m r(1) have w': "w' = (s', B, K @ ?T)" by (simp add: K_def)
  have K: "refs (K @ ?T) = refs ?T" by (cases k) (simp_all add: K_def refs_def)
  have c': "consistent (s', refs (K @ ?T) @ B)" unfolding K
    by (rule consistent_count [OF r(2)]) (rule allI, rule count_remove1_refs [OF t], simp)
  have "task_ok s' u" if u: "u \<in> set (K @ ?T)" for u
  proof (cases "u \<in> set K")
    case True
    then show ?thesis by (auto simp: K_def split: option.splits)
  next
    case False
    with u have uT: "u \<in> set ?T" by simp
    then have uT': "u \<in> set T" using set_remove1_subset [of "Dropping p b k" T] by blast
    show ?thesis
    proof (rule task_keep [OF c c' shrinks_keeps [OF r(3)]])
      show "task_ok s u" using tk uT' by simp
      show "set (ref_of u) \<subseteq> set (refs (K @ ?T) @ B)"
        unfolding K using ref_of_refs [OF uT] by auto
      show "\<forall>q d. u = Adding q d \<longrightarrow>
              count_list (refs (K @ ?T) @ B) (d + sizeof_ItemBuffer)
                \<le> count_list (refs T @ B) (d + sizeof_ItemBuffer) \<and>
              q \<notin> set (ItemList (MetaCache s'))"
      proof (intro allI impI)
        fix q d assume e: "u = Adding q d"
        have a: "task_ok s (Adding q d)" using tk uT' unfolding e [symmetric] by blast
        have "count_list (refs (K @ ?T) @ B) (d + sizeof_ItemBuffer)
                \<le> count_list (refs T @ B) (d + sizeof_ItemBuffer)"
          unfolding K using count_refs_remove1_le [of "Dropping p b k" T] by simp
        with adding_unlisted [OF a shrinks_list [OF r(3)]]
        show "count_list (refs (K @ ?T) @ B) (d + sizeof_ItemBuffer)
                \<le> count_list (refs T @ B) (d + sizeof_ItemBuffer) \<and>
              q \<notin> set (ItemList (MetaCache s'))" by simp
      qed
    qed
  qed
  moreover have "\<forall>u \<in> set (K @ ?T). is_Adding u \<longrightarrow> u \<in> set T"
    using set_remove1_subset [of "Dropping p b k" T] by (auto simp: K_def split: option.splits)
  ultimately show ?thesis using c' r(3) by (simp add: w' cconsistent_def cframe_def)
qed

lemma cconsistent_cong:
  assumes ok: "cconsistent (s, B, T)"
    and e: "MetaCache s' = MetaCache s" "ItemHeap s' = ItemHeap s" "BufferHeap s' = BufferHeap s"
  shows "cconsistent (s', B, T)"
proof -
  from ok have c: "consistent (s, refs T @ B)" and tk: "\<forall>t \<in> set T. task_ok s t"
    by (simp_all add: cconsistent_def)
  have "consistent (s', refs T @ B)" using c wf_cong [OF e] by simp
  moreover have "task_ok s' t = task_ok s t" for t
    by (rule task_ok_cong) (simp_all add: e)
  ultimately show ?thesis using tk by (simp add: cconsistent_def)
qed

lemma enter_add_step:
  assumes ok: "cconsistent (s, B, T)" and m: "enter (Add Buf Sz) (s, B, T) = Some w'"
  shows "cconsistent w' \<and> cframe (s, B, T) w'"
proof -
  let ?G = "refs T @ B"
  from ok have c: "consistent (s, ?G)" and tk: "\<forall>t \<in> set T. task_ok s t"
    by (simp_all add: cconsistent_def)
  from m obtain r s1 where r: "MetaCacheAddItem_unlocked Buf Sz s = Some (r, s1)"
    and w': "w' = (case r of None \<Rightarrow> (s1, B, T) | Some (p, b) \<Rightarrow> (s1, B, Adding p b # T))"
    by (auto split: Option.bind_splits)
  from add_unlocked_cases [OF r] show ?thesis
  proof (elim disjE exE conjE)
    assume a: "r = None" "MetaCache s1 = MetaCache s" "ItemHeap s1 = ItemHeap s"
      "BufferHeap s1 = BufferHeap s" "InterruptTime s1 = InterruptTime s"
    from cconsistent_cong [OF ok a(2,3,4)] a show ?thesis by (simp add: w' cframe_def)
  next
    fix p b
    assume a: "r = Some (p, b)" "s1 = prepared p b Buf Sz s" "p \<noteq> 0" "b \<noteq> 0"
      "ItemHeap s p = None" "BufferHeap s b = None" "unat Sz \<le> length Buf"
    have w: "w' = (s1, B, Adding p b # T)" using w' a(1) by simp
    let ?G' = "refs (Adding p b # T) @ B"
    have c': "consistent (s1, ?G')"
      using prepare_ok [OF c a(5,6,3,7)] by (simp add: a(2) refs_Cons)
    have s1: "MetaCache s1 = MetaCache s" "InterruptTime s1 = InterruptTime s"
      "ItemHeap s1 = (ItemHeap s)(p \<mapsto> \<lparr>DictNext = 0, ItemBuffer = b, ItemIndex = 0,
                  ExpirationTime = InterruptTime s + MetaTimeout (MetaCache s), RefCount = 1\<rparr>)"
      "BufferHeap s1 = (BufferHeap s)(b \<mapsto> \<lparr>Item = p, Size = Sz, Buffer = take (unat Sz) Buf\<rparr>)"
      by (simp_all add: a(2) prepared_def)
    have k: "keeps s s1" unfolding keeps_def s1 using a(6) by auto
    from c have live: "\<forall>q \<in> set (ItemList (MetaCache s)). ItemHeap s q \<noteq> None"
      and hi: "heap_ok 0 (ItemList (MetaCache s)) (ItemHeap s) (BufferHeap s) ?G"
      by (simp_all add: consistent_def struct_wf_def struct_ok_def heap_inv_def)
    have pL: "p \<notin> set (ItemList (MetaCache s))" using live a(5) by auto
    have new: "task_ok s1 (Adding p b)" using pL by (simp add: s1)
    have "task_ok s1 t" if t: "t \<in> set T" for t
    proof (rule task_keep [OF c c' k])
      show "task_ok s t" using tk t by simp
      show "set (ref_of t) \<subseteq> set ?G'" using ref_of_refs [OF t] by (auto simp: refs_Cons)
      show "\<forall>q d. t = Adding q d \<longrightarrow>
              count_list ?G' (d + sizeof_ItemBuffer)
                \<le> count_list (refs T @ B) (d + sizeof_ItemBuffer) \<and>
              q \<notin> set (ItemList (MetaCache s1))"
      proof (intro allI impI)
        fix q d assume e: "t = Adding q d"
        have ta: "task_ok s (Adding q d)" using tk t unfolding e [symmetric] by blast
        have "d + sizeof_ItemBuffer \<in> set ?G" using ref_of_refs [OF t] e by simp
        with hi have "BufferHeap s (d + sizeof_ItemBuffer - sizeof_ItemBuffer) \<noteq> None"
          unfolding heap_ok_def by blast
        with a(6) have "b \<noteq> d" by auto
        then have "count_list ?G' (d + sizeof_ItemBuffer)
                \<le> count_list (refs T @ B) (d + sizeof_ItemBuffer)"
          by (simp add: refs_Cons)
        moreover have "q \<notin> set (ItemList (MetaCache s1))"
          using ta by (auto simp: s1 split: option.splits)
        ultimately show "count_list ?G' (d + sizeof_ItemBuffer)
                \<le> count_list (refs T @ B) (d + sizeof_ItemBuffer) \<and>
              q \<notin> set (ItemList (MetaCache s1))" by simp
      qed
    qed
    with c' new have "cconsistent w'" by (simp add: w cconsistent_def)
    moreover have "cframe (s, B, T) w'"
      unfolding cframe_def w using a(5) s1 by auto
    ultimately show ?thesis by simp
  qed
qed

lemma resume_adding_step:
  assumes ok: "cconsistent (s, B, T)" and t: "Adding p b \<in> set T"
    and m: "resume (Adding p b) (s, B, T) = Some w'"
  shows "cconsistent w' \<and> cframe (s, B, T) w'"
proof -
  let ?G = "refs T @ B" and ?T = "remove1 (Adding p b) T"
  let ?x = "b + sizeof_ItemBuffer"
  from ok have c: "consistent (s, ?G)" and tk: "\<forall>t \<in> set T. task_ok s t"
    by (simp_all add: cconsistent_def)
  from tk t have ta: "task_ok s (Adding p b)" by blast
  have xG: "?x \<in> set ?G" using ref_of_refs [OF t, of ?x] by simp
  from add_rest_wf [OF c ta xG] obtain Idx s' where
    r: "MetaCacheAddItem_rest p b s = Some (Idx, s')" "consistent (s', remove1 ?x ?G)"
       "shrinks s s' \<or>
            (\<exists>it it'. ItemHeap s p = Some it \<and> ItemHeap s' = (ItemHeap s)(p \<mapsto> it') \<and>
               ExpirationTime it' = ExpirationTime it \<and> ItemBuffer it' = ItemBuffer it \<and>
               RefCount it' = RefCount it \<and>
               ItemList (MetaCache s') = ItemList (MetaCache s) @ [p] \<and>
               BufferHeap s' = BufferHeap s \<and> InterruptTime s' = InterruptTime s \<and>
               MetaTimeout (MetaCache s') = MetaTimeout (MetaCache s))" by blast
  from m r(1) have w': "w' = (s', B, ?T)" by simp
  have c': "consistent (s', refs ?T @ B)"
    by (rule consistent_count [OF r(2)]) (rule allI, rule count_remove1_refs [OF t], simp)
  have k: "keeps s s'" using r(3) shrinks_keeps [of s s'] by (auto simp: keeps_def)
  have once: "Adding p b \<notin> set ?T"
  proof
    assume "Adding p b \<in> set ?T"
    from ref_of_refs [OF this, of ?x] have "count_list (refs ?T) ?x \<noteq> 0"
      by (simp add: count_list_0_iff)
    with count_refs_remove1 [OF t, of ?x] have "2 \<le> count_list (refs T) ?x" by simp
    with adding_count [OF c ta] show False by simp
  qed
  have "task_ok s' u" if u: "u \<in> set ?T" for u
  proof -
    have uT: "u \<in> set T" using u set_remove1_subset [of "Adding p b" T] by blast
    show ?thesis
    proof (rule task_keep [OF c c' k])
      show "task_ok s u" using tk uT by simp
      show "set (ref_of u) \<subseteq> set (refs ?T @ B)" using ref_of_refs [OF u] by auto
      show "\<forall>q d. u = Adding q d \<longrightarrow>
              count_list (refs ?T @ B) (d + sizeof_ItemBuffer)
                \<le> count_list (refs T @ B) (d + sizeof_ItemBuffer) \<and>
              q \<notin> set (ItemList (MetaCache s'))"
      proof (intro allI impI)
        fix q d assume e: "u = Adding q d"
        have a: "task_ok s (Adding q d)" using tk uT unfolding e [symmetric] by blast
        have le: "count_list (refs ?T @ B) (d + sizeof_ItemBuffer)
                \<le> count_list (refs T @ B) (d + sizeof_ItemBuffer)"
          using count_refs_remove1_le [of "Adding p b" T] by simp
        have "q \<noteq> p"
        proof
          assume "q = p"
          with a ta have "d = b" by (auto split: option.splits)
          with \<open>q = p\<close> e u once show False by simp
        qed
        with a r(3) shrinks_list [of s s'] have "q \<notin> set (ItemList (MetaCache s'))"
          by (auto split: option.splits)
        with le show "count_list (refs ?T @ B) (d + sizeof_ItemBuffer)
                \<le> count_list (refs T @ B) (d + sizeof_ItemBuffer) \<and>
              q \<notin> set (ItemList (MetaCache s'))" by simp
      qed
    qed
  qed
  with c' have "cconsistent w'" by (simp add: w' cconsistent_def)
  moreover from r(3) have "cframe (s, B, T) w'"
  proof
    assume "shrinks s s'"
    then show ?thesis
      unfolding cframe_def w' using set_remove1_subset [of "Adding p b" T] by auto
  next
    assume "\<exists>it it'. ItemHeap s p = Some it \<and> ItemHeap s' = (ItemHeap s)(p \<mapsto> it') \<and>
               ExpirationTime it' = ExpirationTime it \<and> ItemBuffer it' = ItemBuffer it \<and>
               RefCount it' = RefCount it \<and>
               ItemList (MetaCache s') = ItemList (MetaCache s) @ [p] \<and>
               BufferHeap s' = BufferHeap s \<and> InterruptTime s' = InterruptTime s \<and>
               MetaTimeout (MetaCache s') = MetaTimeout (MetaCache s)"
    with t have "\<exists>p0 b0 it it'. Adding p0 b0 \<in> set T \<and> ?T = remove1 (Adding p0 b0) T \<and>
           ItemHeap s p0 = Some it \<and> ItemHeap s' = (ItemHeap s)(p0 \<mapsto> it') \<and>
           ExpirationTime it' = ExpirationTime it \<and>
           ItemList (MetaCache s') = ItemList (MetaCache s) @ [p0] \<and>
           InterruptTime s' = InterruptTime s \<and>
           MetaTimeout (MetaCache s') = MetaTimeout (MetaCache s)" by blast
    then show ?thesis
      unfolding cframe_def w' prod.case by (intro disjI2)
  qed
  ultimately show ?thesis by simp
qed

text \<open>Every move keeps the state consistent.\<close>

lemma cexec_step:
  assumes ok: "cconsistent w" and m: "cexec m w = Some w'"
  shows "cconsistent w' \<and> cframe w w'"
proof -
  obtain s B T where w: "w = (s, B, T)" by (cases w)
  note ok' = ok [unfolded w] and m' = m [unfolded w]
  show ?thesis unfolding w
  proof (cases m)
    case (Enter c)
    show "cconsistent w' \<and> cframe (s, B, T) w'"
    proof (cases c)
      case (Add Buf Sz)
      with m' Enter show ?thesis using enter_add_step [OF ok'] by simp
    next
      case (Borrow Idx PSize)
      with m' Enter show ?thesis using enter_borrow_step [OF ok'] by simp
    next
      case (Return x)
      with m' Enter show ?thesis using enter_return_step [OF ok'] by simp
    next
      case (Invalidate Idx)
      with m' Enter show ?thesis using enter_invalidate_step [OF ok'] by simp
    next
      case InvalidateExpired
      with m' Enter have w': "w' = (s, B, Sweeping (KeQueryInterruptTime s) # T)" by simp
      with ok' shrinks_refl [of s] show ?thesis
        by (auto simp: cconsistent_def cframe_def refs_Cons)
    next
      case InvalidateAll
      with m' Enter have w': "w' = (s, B, Sweeping (- 1) # T)" by simp
      with ok' shrinks_refl [of s] show ?thesis
        by (auto simp: cconsistent_def cframe_def refs_Cons)
    next
      case (Tick d)
      with m' Enter have d: "unat (InterruptTime s) + unat d < 2 ^ 64"
        and w': "w' = (s\<lparr>InterruptTime := InterruptTime s + d\<rparr>, B, T)"
        by (simp_all split: if_splits)
      from d have "unat (InterruptTime s + d) = unat (InterruptTime s) + unat d"
        by (simp add: unat_word_ariths)
      moreover have "cconsistent (s\<lparr>InterruptTime := InterruptTime s + d\<rparr>, B, T)"
        by (rule cconsistent_cong [OF ok']) simp_all
      ultimately show ?thesis by (simp add: w' cframe_def)
    qed
  next
    case (Resume t)
    with m' have t: "t \<in> set T" and r: "resume t (s, B, T) = Some w'"
      by (simp_all split: if_splits)
    show "cconsistent w' \<and> cframe (s, B, T) w'"
    proof (cases t)
      case (Adding p b)
      with t r show ?thesis using resume_adding_step [OF ok'] by simp
    next
      case (Sweeping e)
      with t r show ?thesis using resume_sweeping_step [OF ok'] by simp
    next
      case (Dropping p b k)
      with t r show ?thesis using resume_dropping_step [OF ok'] by simp
    qed
  qed
qed

lemma create_cconsistent:
  assumes "MetaCacheCreate pool now n cap mx tmo = Inr s" "n \<noteq> 0"
  shows "cconsistent (s, [], [])"
  using create_wf [OF assms] by (simp add: cconsistent_def refs_def)

lemma interleaved_wf: "interleaved w \<Longrightarrow> cconsistent w"
proof (induction rule: interleaved.induct)
  case (created BucketCount pool now Capacity SizeMax Timeout s)
  then show ?case using create_cconsistent by blast
next
  case (moved w m w')
  then show ?case using cexec_step by blast
qed

lemma crun_interleaved: "interleaved w \<Longrightarrow> crun ms w = Some w' \<Longrightarrow> interleaved w'"
proof (induction ms arbitrary: w)
  case Nil
  then show ?case by simp
next
  case (Cons m ms)
  from Cons.prems(2) obtain w1 where w1: "cexec m w = Some w1" "crun ms w1 = Some w'"
    by (auto split: option.splits)
  from Cons.IH [OF interleaved.moved [OF Cons.prems(1) w1(1)] w1(2)] show ?case .
qed

lemma serial_interleaved: "serial_adds w \<Longrightarrow> interleaved w"
  by (induction rule: serial_adds.induct) (auto intro: interleaved.intros)

lemma serial_one: "serial_adds w \<Longrightarrow> length (adding w) \<le> 1"
  by (induction rule: serial_adds.induct) (simp_all add: adding_def)

text \<open>With one insertion in flight at most, and without a wrap of the sum at
  meta.c:182, every move keeps the list in order.\<close>

lemma adding_one:
  assumes "length (filter is_Adding T) \<le> 1" "Adding p b \<in> set T" "Adding q d \<in> set T"
  shows "q = p \<and> d = b"
proof -
  define F where "F = filter is_Adding T"
  have "Adding p b \<in> set F" "Adding q d \<in> set F" using assms(2,3) by (simp_all add: F_def)
  moreover have "length F \<le> 1" using assms(1) by (simp add: F_def)
  ultimately show ?thesis by (cases F) auto
qed

lemma cexpiry_step:
  assumes ok: "cconsistent (s, B, T)" and ok': "cconsistent (s', B', T')"
    and fr: "cframe (s, B, T) (s', B', T')"
    and one: "length (filter is_Adding T) \<le> 1" and one': "length (filter is_Adding T') \<le> 1"
    and nw: "unat (InterruptTime s') + unat (MetaTimeout (MetaCache s')) < 2 ^ 64"
    and ih: "unat (InterruptTime s) + unat (MetaTimeout (MetaCache s)) < 2 ^ 64 \<Longrightarrow>
             cexpiry (s, B, T)"
  shows "cexpiry (s', B', T')"
proof -
  let ?L = "ItemList (MetaCache s)" and ?L' = "ItemList (MetaCache s')"
  let ?e = "\<lambda>p. ExpirationTime (the (ItemHeap s p))"
  let ?e' = "\<lambda>p. ExpirationTime (the (ItemHeap s' p))"
  let ?now = "unat (InterruptTime s) + unat (MetaTimeout (MetaCache s))"
  let ?now' = "unat (InterruptTime s') + unat (MetaTimeout (MetaCache s'))"
  from ok have live: "\<forall>p \<in> set ?L. ItemHeap s p \<noteq> None"
    by (simp add: cconsistent_def consistent_def struct_wf_def struct_ok_def)
  from ok' have live': "\<forall>p \<in> set ?L'. ItemHeap s' p \<noteq> None"
    and tk': "\<forall>t \<in> set T'. task_ok s' t"
    by (simp_all add: cconsistent_def consistent_def struct_wf_def struct_ok_def)
  from fr consider
      (shrink) "shrinks s s'" "\<forall>t \<in> set T'. is_Adding t \<longrightarrow> t \<in> set T"
    | (same) "MetaCache s' = MetaCache s" "ItemHeap s' = ItemHeap s"
        "unat (InterruptTime s) \<le> unat (InterruptTime s')"
        "\<forall>t \<in> set T'. is_Adding t \<longrightarrow> t \<in> set T"
    | (prepare) p b it where "T' = Adding p b # T" "ItemHeap s p = None"
        "ItemHeap s' = (ItemHeap s)(p \<mapsto> it)"
        "ExpirationTime it = InterruptTime s + MetaTimeout (MetaCache s)"
        "MetaCache s' = MetaCache s" "InterruptTime s' = InterruptTime s"
    | (insert) p b it it' where "Adding p b \<in> set T" "T' = remove1 (Adding p b) T"
        "ItemHeap s p = Some it" "ItemHeap s' = (ItemHeap s)(p \<mapsto> it')"
        "ExpirationTime it' = ExpirationTime it" "?L' = ?L @ [p]"
        "InterruptTime s' = InterruptTime s"
        "MetaTimeout (MetaCache s') = MetaTimeout (MetaCache s)"
    unfolding cframe_def by (simp only: prod.case) blast
  then show ?thesis
  proof cases
    case shrink
    then have same: "InterruptTime s' = InterruptTime s"
      "MetaTimeout (MetaCache s') = MetaTimeout (MetaCache s)" by (simp_all add: shrinks_def)
    with nw ih have e: "expiry_ok s"
      and a: "\<forall>p b. Adding p b \<in> set T \<longrightarrow> (\<forall>q \<in> set ?L. ?e q \<le> ?e p) \<and> unat (?e p) \<le> ?now"
      by (simp_all add: cexpiry_def)
    from shrink(1) obtain P where P: "?L' = filter P ?L" unfolding shrinks_def by blast
    have keep: "?e' p = ?e p" if "ItemHeap s' p \<noteq> None" for p
    proof -
      from that obtain it' where "ItemHeap s' p = Some it'" by auto
      moreover with shrink(1) obtain it where "ItemHeap s p = Some it"
        "ExpirationTime it' = ExpirationTime it" unfolding shrinks_def by blast
      ultimately show ?thesis by simp
    qed
    have eq: "?e' p = ?e p" if "p \<in> set ?L'" for p using keep live' that by blast
    then have "map ?e' ?L' = map ?e (filter P ?L)" using P by (simp cong: map_cong)
    moreover have "sorted (map ?e (filter P ?L))"
      using e by (simp add: expiry_ok_def sorted_filter)
    moreover have "\<forall>p \<in> set ?L'. unat (?e' p) \<le> ?now'"
      using e eq P same by (auto simp: expiry_ok_def)
    ultimately have e': "expiry_ok s'" by (simp add: expiry_ok_def)
    have "(\<forall>q \<in> set ?L'. ?e' q \<le> ?e' p) \<and> unat (?e' p) \<le> ?now'" if t: "Adding p b \<in> set T'" for p b
    proof -
      from t shrink(2) have tT: "Adding p b \<in> set T" by auto
      from tk' t have "ItemHeap s' p \<noteq> None" by (auto split: option.splits)
      then have "?e' p = ?e p" by (rule keep)
      with a tT eq P same show ?thesis by auto
    qed
    with e' show ?thesis by (auto simp: cexpiry_def)
  next
    case same
    with nw have "?now < 2 ^ 64" by simp
    with ih have e: "expiry_ok s"
      and a: "\<forall>p b. Adding p b \<in> set T \<longrightarrow> (\<forall>q \<in> set ?L. ?e q \<le> ?e p) \<and> unat (?e p) \<le> ?now"
      by (simp_all add: cexpiry_def)
    from e same have "expiry_ok s'" by (auto simp: expiry_ok_def)
    moreover have "(\<forall>q \<in> set ?L'. ?e' q \<le> ?e' p) \<and> unat (?e' p) \<le> ?now'"
      if t: "Adding p b \<in> set T'" for p b
    proof -
      from t same(4) have "Adding p b \<in> set T" by auto
      with a same show ?thesis by auto
    qed
    ultimately show ?thesis by (auto simp: cexpiry_def)
  next
    case prepare
    with nw have nw': "?now < 2 ^ 64" by simp
    with ih have e: "expiry_ok s" by (simp add: cexpiry_def)
    have un: "unat (InterruptTime s + MetaTimeout (MetaCache s)) = ?now"
      using nw' by (simp add: unat_word_ariths)
    have pL: "p \<notin> set ?L" using live prepare(2) by auto
    have eq: "?e' q = ?e q" if "q \<in> set ?L" for q using that pL prepare(3) by auto
    have new: "?e' p = InterruptTime s + MetaTimeout (MetaCache s)" using prepare(3,4) by simp
    have L: "?L' = ?L" using prepare(5) by simp
    have m: "map ?e' ?L = map ?e ?L" using eq by (simp cong: map_cong)
    have "sorted (map ?e' ?L)" unfolding m using e by (simp add: expiry_ok_def)
    moreover have "\<forall>q \<in> set ?L. unat (?e' q) \<le> ?now'"
      using e eq prepare(5,6) by (auto simp: expiry_ok_def)
    ultimately have e': "expiry_ok s'" unfolding expiry_ok_def L by simp
    have le: "\<forall>q \<in> set ?L. ?e q \<le> InterruptTime s + MetaTimeout (MetaCache s)"
      using e un by (simp add: expiry_ok_def word_le_nat_alt)
    have "(\<forall>q \<in> set ?L'. ?e' q \<le> ?e' r) \<and> unat (?e' r) \<le> ?now'"
      if t: "Adding r d \<in> set T'" for r d
    proof -
      have "Adding p b \<in> set T'" using prepare(1) by simp
      from adding_one [OF one' this t] have "r = p" by simp
      then show ?thesis using le eq new un L prepare(5,6) by simp
    qed
    with e' show ?thesis by (auto simp: cexpiry_def)
  next
    case insert
    with nw have "?now < 2 ^ 64" by simp
    with ih have cx: "cexpiry (s, B, T)" by simp
    then have e: "expiry_ok s"
      and a0: "\<forall>p b. Adding p b \<in> set T \<longrightarrow>
                (\<forall>q \<in> set ?L. ?e q \<le> ?e p) \<and> unat (?e p) \<le> ?now"
      unfolding cexpiry_def prod.case by blast+
    from a0 insert(1) have a: "(\<forall>q \<in> set ?L. ?e q \<le> ?e p) \<and> unat (?e p) \<le> ?now"
      by blast
    have eq: "?e' q = ?e q" for q using insert(3,4,5) by simp
    have "map ?e' ?L' = map ?e ?L @ [?e p]" using insert(6) eq by simp
    moreover have "sorted (map ?e ?L @ [?e p])"
      using e a by (simp add: expiry_ok_def sorted_append)
    moreover have "\<forall>q \<in> set ?L'. unat (?e' q) \<le> ?now'"
      using e a eq insert(6,7,8) by (auto simp: expiry_ok_def)
    ultimately have e': "expiry_ok s'" by (simp add: expiry_ok_def)
    have "Adding r d \<notin> set T'" for r d
    proof
      assume t: "Adding r d \<in> set T'"
      then have "Adding r d \<in> set T" using insert(2) set_remove1_subset [of "Adding p b" T] by blast
      from adding_one [OF one insert(1) this] t insert(2) have "Adding p b \<in> set (remove1 (Adding p b) T)"
        by simp
      moreover have "filter is_Adding T = [Adding p b]"
      proof -
        have "Adding p b \<in> set (filter is_Adding T)" using insert(1) by simp
        with one show ?thesis by (cases "filter is_Adding T") (auto simp: length_Suc_conv)
      qed
      then have "filter is_Adding (remove1 (Adding p b) T) = []"
        by (induction T) (auto split: if_splits)
      ultimately show False by (metis filter_empty_conv is_Adding.simps(1))
    qed
    with e' show ?thesis by (auto simp: cexpiry_def)
  qed
qed

lemma serial_expiry:
  "serial_adds w \<Longrightarrow>
   unat (InterruptTime (fst w)) + unat (MetaTimeout (MetaCache (fst w))) < 2 ^ 64 \<Longrightarrow>
   cexpiry w"
proof (induction rule: serial_adds.induct)
  case (created BucketCount pool now Capacity SizeMax Timeout s)
  then show ?case
    by (auto simp: MetaCacheCreate_def cexpiry_def expiry_ok_def split: list.splits if_splits)
next
  case (moved w m w')
  obtain s B T where w: "w = (s, B, T)" by (cases w)
  obtain s' B' T' where w': "w' = (s', B', T')" by (cases w')
  have ok: "cconsistent (s, B, T)"
    using interleaved_wf [OF serial_interleaved [OF moved.hyps(1)]] w by simp
  from cexec_step [OF ok moved.hyps(2) [unfolded w]]
  have ok': "cconsistent (s', B', T')" and fr: "cframe (s, B, T) (s', B', T')"
    by (simp_all add: w')
  have one: "length (filter is_Adding T) \<le> 1"
    using serial_one [OF moved.hyps(1)] by (simp add: w adding_def)
  have one': "length (filter is_Adding T') \<le> 1"
    using moved.hyps(3) by (simp add: w' adding_def)
  show ?case
    unfolding w'
    by (rule cexpiry_step [OF ok ok' fr one one'])
       (use moved.prems moved.IH w w' in simp_all)
qed

text \<open>
  Claim C6, amended. In every state that is reached while no two insertions overlap (at
  most one call of \<^verbatim>\<open>MetaCacheAddItem\<close> is between its read of the interrupt time at
  meta.c:182 and its release of the lock at meta.c:209; all other calls overlap freely,
  with the insertion and with one another), and in which the interrupt time plus the
  timeout is below \<open>2\<^sup>6\<^sup>4\<close> (the sum at meta.c:182 has not wrapped at any insertion so
  far), the insertion-ordered list is sorted by expiration time, ascending. The runs in
  which no two calls overlap at all are among these (\<open>reachable_serial\<close>).
\<close>

theorem list_sorted_serial_adds:
  assumes "serial_adds (s, B, T)"
    and "unat (InterruptTime s) + unat (MetaTimeout (MetaCache s)) < 2 ^ 64"
  shows "list_sorted s"
proof -
  have "cconsistent (s, B, T)" using interleaved_wf [OF serial_interleaved [OF assms(1)]] .
  then have live: "\<forall>p \<in> set (ItemList (MetaCache s)). ItemHeap s p \<noteq> None"
    by (simp add: cconsistent_def consistent_def struct_wf_def struct_ok_def)
  have "cexpiry (s, B, T)" using serial_expiry [OF assms(1)] assms(2) by simp
  then have "expiry_ok s" by (simp add: cexpiry_def)
  then show ?thesis
    by (simp add: list_sorted_def expirations_def expirations_live [OF live] expiry_ok_def)
qed

lemma serial_run_serial: "serial_adds w \<Longrightarrow> serial_run ms w = Some w' \<Longrightarrow> serial_adds w'"
proof (induction ms arbitrary: w)
  case Nil
  then show ?case by simp
next
  case (Cons m ms)
  from Cons.prems(2) obtain w1 where w1: "cexec m w = Some w1" "length (adding w1) \<le> 1"
    "serial_run ms w1 = Some w'"
    by (auto split: option.splits if_splits)
  from Cons.IH [OF serial_adds.moved [OF Cons.prems(1) w1(1,2)] w1(3)] show ?case .
qed

lemma serial_run_append:
  "serial_run ms w = Some w1 \<Longrightarrow> serial_run ns w1 = Some w2 \<Longrightarrow> serial_run (ms @ ns) w = Some w2"
  by (induction ms arbitrary: w) (auto split: option.splits if_splits)

text \<open>Calls that do not overlap at all are runs of moves: each call enters and is
  resumed until it has returned, before the next call enters.\<close>

lemma sweep_moves:
  assumes "consistent (s, B)"
  shows "\<exists>ms s'. MetaCacheInvalidateItems e s = Some s' \<and>
                 serial_run ms (s, B, [Sweeping e]) = Some (s', B, [])"
  using assms
proof (induction "length (ItemList (MetaCache s))" arbitrary: s rule: less_induct)
  case less
  from sweep_turn [OF less.prems, of e] show ?case
  proof (elim disjE exE conjE)
    assume a: "MetaCacheInvalidateItems_locked e s = Some (0, s)"
    then have "MetaCacheInvalidateItems e s = Some s"
      by (subst MetaCacheInvalidateItems.simps) simp
    moreover have "serial_run [Resume (Sweeping e)] (s, B, [Sweeping e]) = Some (s, B, [])"
      using a by (simp add: adding_def)
    ultimately show ?case by blast
  next
    fix p es s3 s'
    assume a: "ItemList (MetaCache s) = p # es" "p \<noteq> 0"
      "MetaCacheInvalidateItems_locked e s = Some (p, s3)"
      "MetaCacheDereferenceItem p s3 = Some s'" "consistent (s', B)" "shrinks s s'"
      "ItemList (MetaCache s') = es"
    then have "length (ItemList (MetaCache s')) < length (ItemList (MetaCache s))" by simp
    from less.hyps [OF this a(5)] obtain ms s'' where
      s'': "MetaCacheInvalidateItems e s' = Some s''"
           "serial_run ms (s', B, [Sweeping e]) = Some (s'', B, [])" by blast
    from a(4) obtain it where it: "ItemHeap s3 p = Some it"
      by (auto simp: MetaCacheDereferenceItem_def split: option.splits)
    have "MetaCacheInvalidateItems e s = Some s''"
      using a(2,3,4) s''(1) by (subst MetaCacheInvalidateItems.simps) simp
    moreover have "serial_run [Resume (Sweeping e), Resume (Dropping p (ItemBuffer it) (Some e))]
                     (s, B, [Sweeping e]) = Some (s', B, [Sweeping e])"
      using a(2,3,4) it by (simp add: adding_def)
    from serial_run_append [OF this s''(2)]
    have "\<exists>ms. serial_run ms (s, B, [Sweeping e]) = Some (s'', B, [])" by blast
    ultimately show ?case by blast
  qed
qed

lemma exec_moves:
  assumes ok: "consistent (s, B)" and x: "exec c (s, B) = Some (s', B')"
  shows "\<exists>ms. serial_run ms (s, B, []) = Some (s', B', [])"
proof (cases c)
  case (Add Buf Sz)
  with x obtain h where h: "MetaCacheAddItem Buf Sz s = Some (h, s')" and B': "B' = B" by auto
  from h obtain r s1 where r: "MetaCacheAddItem_unlocked Buf Sz s = Some (r, s1)"
    and k: "(case r of None \<Rightarrow> Some (0, s1) | Some (p, b) \<Rightarrow> MetaCacheAddItem_rest p b s1) = Some (h, s')"
    unfolding MetaCacheAddItem_split by (auto split: Option.bind_splits)
  show ?thesis
  proof (cases r)
    case None
    with r k have "serial_run [Enter (Add Buf Sz)] (s, B, []) = Some (s', B, [])"
      by (simp add: adding_def)
    then show ?thesis unfolding B' by blast
  next
    case (Some pb)
    obtain p b where pb: "pb = (p, b)" by (cases pb)
    with Some r k have "serial_run [Enter (Add Buf Sz), Resume (Adding p b)] (s, B, []) = Some (s', B, [])"
      by (simp add: adding_def)
    then show ?thesis unfolding B' by blast
  qed
next
  case (Borrow Idx PSize)
  with x have "serial_run [Enter (Borrow Idx PSize)] (s, B, []) = Some (s', B', [])"
    by (auto simp: adding_def split: if_splits)
  then show ?thesis by blast
next
  case (Return p)
  with x have "serial_run [Enter (Return p)] (s, B, []) = Some (s', B', [])"
    by (auto simp: adding_def split: if_splits)
  then show ?thesis by blast
next
  case (Invalidate Idx)
  with x have i: "MetaCacheInvalidateItem Idx s = Some s'" and B': "B' = B" by auto
  from i obtain p s3 where l: "MetaCacheInvalidateItem_locked Idx s = Some (p, s3)"
    and k: "(if p \<noteq> 0 then MetaCacheDereferenceItem p s3 else Some s3) = Some s'"
    unfolding MetaCacheInvalidateItem_split by (auto split: Option.bind_splits)
  show ?thesis
  proof (cases "p = 0")
    case True
    with l k have "serial_run [Enter (Invalidate Idx)] (s, B, []) = Some (s', B, [])"
      by (simp add: adding_def)
    then show ?thesis unfolding B' by blast
  next
    case False
    with k have d: "MetaCacheDereferenceItem p s3 = Some s'" by simp
    then obtain it where it: "ItemHeap s3 p = Some it"
      by (auto simp: MetaCacheDereferenceItem_def split: option.splits)
    have "serial_run [Enter (Invalidate Idx), Resume (Dropping p (ItemBuffer it) None)] (s, B, [])
            = Some (s', B, [])"
      using l d it False by (simp add: adding_def)
    then show ?thesis unfolding B' by blast
  qed
next
  case InvalidateExpired
  with x have i: "MetaCacheInvalidateItems (KeQueryInterruptTime s) s = Some s'" and B': "B' = B"
    by (auto simp: MetaCacheInvalidateExpired_def)
  from sweep_moves [OF ok, of "KeQueryInterruptTime s"] i obtain ms where
    "serial_run ms (s, B, [Sweeping (KeQueryInterruptTime s)]) = Some (s', B, [])" by auto
  then have "serial_run (Enter InvalidateExpired # ms) (s, B, []) = Some (s', B, [])"
    by (simp add: adding_def)
  then show ?thesis unfolding B' by blast
next
  case InvalidateAll
  with x have i: "MetaCacheInvalidateItems (- 1) s = Some s'" and B': "B' = B"
    by (auto simp: MetaCacheInvalidateAll_def)
  from sweep_moves [OF ok, of "- 1"] i obtain ms where
    "serial_run ms (s, B, [Sweeping (- 1)]) = Some (s', B, [])" by auto
  then have "serial_run (Enter InvalidateAll # ms) (s, B, []) = Some (s', B, [])"
    by (simp add: adding_def)
  then show ?thesis unfolding B' by blast
next
  case (Tick d)
  with x have "serial_run [Enter (Tick d)] (s, B, []) = Some (s', B', [])"
    by (auto simp: adding_def split: if_splits)
  then show ?thesis by blast
qed

lemma reachable_serial: "reachable w \<Longrightarrow> serial_adds (fst w, snd w, [])"
proof (induction rule: reachable.induct)
  case (created BucketCount pool now Capacity SizeMax Timeout s)
  then show ?case by (simp add: serial_adds.created)
next
  case (called w c w')
  obtain s B where w: "w = (s, B)" by (cases w)
  obtain s' B' where w': "w' = (s', B')" by (cases w')
  have ok: "consistent (s, B)" using reachable_wf [OF called.hyps(1)] w by simp
  from exec_moves [OF ok called.hyps(2) [unfolded w w']] obtain ms where
    "serial_run ms (s, B, []) = Some (s', B', [])" by blast
  from serial_run_serial [OF _ this] called.IH w w' show ?case by simp
qed

lemma demo_pair_run:
  "serial_run [Enter (Add [7] 1), Enter InvalidateExpired, Resume (Adding 1 11), Enter (Tick 20),
               Enter (Add [] 0), Resume (Sweeping 0), Resume (Adding 2 12)] (demo, [], [])
     = Some (demo_pair, [], [])"
  apply (simp add: demo_pair_def demo_def demo_pool_def eval_defs ceval_defs adding_def)
  done

lemma demo_pair_serial: "serial_adds (demo_pair, [], [])"
  by (rule serial_run_serial [OF serial_adds.created [OF _ demo_created] demo_pair_run]) simp

lemma race_interleaved: "interleaved (race_two, [], [])"
  by (rule crun_interleaved [OF interleaved.created [OF _ demo_created] race_run]) simp

lemma late_serial: "serial_adds (late_two, [], [])"
  using reachable_serial [OF late_reachable] by simp

text \<open>
  Claim C6 as it is stated fails, in two ways.
  \<^item> meta.c:182 adds the timeout to the interrupt time on 64 bits. With the timeout
    \<open>- 10\<close>, an item inserted at time 5 expires at \<open>2\<^sup>6\<^sup>4 - 5\<close> and an item inserted
    later, at time 20, expires at 10: the list is not sorted, in a run where no two calls
    overlap.
  \<^item> meta.c:182 reads the interrupt time before the lock is taken at meta.c:190. Of two
    insertions that overlap, the one that has read the time 0 is the last to take the
    lock, after the one that has read the time 20: the list holds the expiration times
    120 and 100 in this order, and no sum has wrapped.
\<close>

theorem list_sorted_counterexample:
  "MetaCacheCreate (100 # demo_pool) 5 2 2 4096 (- 10) = Inr late_demo \<and>
   run [Add [] 0, Tick 15, Add [] 0] (late_demo, []) = Some (late_two, []) \<and>
   reachable (late_two, []) \<and> serial_adds (late_two, [], []) \<and>
   expirations late_two = Some [- 5, 10] \<and> \<not> list_sorted late_two \<and>
   MetaCacheCreate (100 # demo_pool) 0 2 2 4096 100 = Inr demo \<and>
   crun [Enter (Add [] 0), Enter (Tick 20), Enter (Add [] 0), Resume (Adding 2 12),
         Resume (Adding 1 11)] (demo, [], []) = Some (race_two, [], []) \<and>
   interleaved (race_two, [], []) \<and>
   unat (InterruptTime race_two) + unat (MetaTimeout (MetaCache race_two)) < 2 ^ 64 \<and>
   expirations race_two = Some [120, 100] \<and> \<not> list_sorted race_two"
proof -
  have e: "expirations late_two = Some [- 5, 10]"
    by (simp add: expirations_def late_two_def late_demo_def)
  have "\<not> (- 5 :: UINT64) \<le> 10" by simp
  then have l: "\<not> list_sorted late_two" by (simp add: list_sorted_def e)
  have f: "expirations race_two = Some [120, 100]"
    by (simp add: expirations_def race_two_def)
  have "\<not> (120 :: UINT64) \<le> 100" by simp
  then have r: "\<not> list_sorted race_two" by (simp add: list_sorted_def f)
  have n: "unat (InterruptTime race_two) + unat (MetaTimeout (MetaCache race_two)) < 2 ^ 64"
    by (simp add: race_two_def demo_def)
  from late_created late_run late_reachable late_serial e l demo_created race_run
    race_interleaved n f r
  show ?thesis by simp
qed

text \<open>A run with two insertions, the first of them overlapped by an expiry sweep that
  ends during the second: the list holds both items, in the order of their expiration
  times.\<close>

theorem list_sorted_serial_adds_witness:
  "serial_run [Enter (Add [7] 1), Enter InvalidateExpired, Resume (Adding 1 11), Enter (Tick 20),
               Enter (Add [] 0), Resume (Sweeping 0), Resume (Adding 2 12)] (demo, [], [])
     = Some (demo_pair, [], []) \<and>
   serial_adds (demo_pair, [], []) \<and>
   unat (InterruptTime demo_pair) + unat (MetaTimeout (MetaCache demo_pair)) < 2 ^ 64 \<and>
   ItemList (MetaCache demo_pair) = [1, 2] \<and>
   expirations demo_pair = Some [100, 120] \<and> list_sorted demo_pair"
proof -
  have h: "unat (InterruptTime demo_pair) + unat (MetaTimeout (MetaCache demo_pair)) < 2 ^ 64"
    by (simp add: demo_pair_def demo_def)
  have e: "ItemList (MetaCache demo_pair) = [1, 2]" "expirations demo_pair = Some [100, 120]"
    by (simp_all add: expirations_def demo_pair_def)
  show ?thesis
    using list_sorted_serial_adds [OF demo_pair_serial h] demo_pair_serial demo_pair_run h e
    by simp
qed

end
